theory Spec2Isabelle
  imports Complex_Main "HOL-Library.AList"
begin

section \<open>Risk-interaction network engine\<close>

text \<open>
  A shallow embedding of \<^verbatim>\<open>src/risk_analysis/interaction_analysis.py\<close> and of the
  duplicated routines of \<^verbatim>\<open>src/risk_analysis/systemic_risk_analysis.py\<close>.

  Conventions.
  \<^item> A Python \<^verbatim>\<open>dict\<close> is an association list in insertion order; an assignment
    \<^verbatim>\<open>d[k] = v\<close> is \<open>AList.update k v d\<close> (the value is replaced in place when the
    key is present, the pair is appended otherwise), a lookup is \<open>map_of d k\<close>.
  \<^item> A Python \<^verbatim>\<open>float\<close> that is parsed from text or compared with a literal is a
    \<open>real\<close>: comparison of two doubles is comparison of their values, and a decimal
    literal of the source and the same decimal in an input denote the same double, which
    is written here as the decimal itself.
  \<^item> The functions of the \<^verbatim>\<open>networkx\<close> and \<^verbatim>\<open>re\<close> libraries that the routines call
    are modelled from their documented behaviour, or taken as parameters where only
    their result matters.
    Activations and edge weights of the cascade are values of an arbitrary type with
    \<open>0\<close>, \<open>1\<close>, \<open>+\<close>, \<open>*\<close> and \<open><\<close>, about which no law is assumed, so that
    what is proved of the cascade does not depend on how the arithmetic rounds.
  \<^item> An exception is a value \<open>Inl e\<close> of a sum type.
\<close>

datatype error =
    OracleFailure          \<comment> \<open>the call of the external scoring service raised\<close>
  | StopIteration          \<comment> \<open>\<^verbatim>\<open>next(iter(...))\<close> on an empty dictionary\<close>
  | NetworkXPointlessConcept
  | NetworkXError

subsection \<open>Data model\<close>

text \<open>
  Modelled from the spec: \<^verbatim>\<open>src/models.py\<close> (the classes \<^verbatim>\<open>Risk\<close> and
  \<^verbatim>\<open>RiskInteraction\<close>) is not among the sources. The fields are those of section 3 of
  the specification and of the constructor calls in the tests; the field \<^verbatim>\<open>id\<close> is
  named \<open>risk_id\<close> here. The fifth positional argument of \<^verbatim>\<open>RiskInteraction\<close>,
  which receives the oracle's response text, is the field \<open>rationale\<close>.
\<close>

record risk =
  risk_id :: int
  description :: string
  category :: string
  likelihood :: real
  impact :: real
  subcategory :: string
  tertiary_category :: string
  time_horizon :: string
  industry_specific :: bool
  sasb_category :: string

record 'w risk_interaction =
  risk1_id :: int
  risk2_id :: int
  interaction_score :: 'w
  interaction_type :: string
  rationale :: string

subsection \<open>InteractionScorer\<close>

text \<open>
  \<^verbatim>\<open>determine_interaction_type(score)\<close>: the two comparisons of the source, in its
  order.
\<close>

definition determine_interaction_type :: "real \<Rightarrow> string" where
  "determine_interaction_type score =
     (if score < 0.3 then ''Weak''
      else if score < 0.7 then ''Moderate''
      else ''Strong'')"

text \<open>
  \<^verbatim>\<open>re.findall(r"[-+]?\d*\.\d+|\d+", analysis)\<close>. A \<open>char\<close> is a code point below 256
  (a response with any other code point is outside the type \<open>string\<close>); of these code
  points \<^verbatim>\<open>\d\<close> matches the ten ASCII digits and no other. \<open>match_float s\<close> is the
  length of the match of the first alternative at the start of \<open>s\<close>: an optional sign, the longest run of digits, a dot, the
  longest non-empty run of digits. (Backtracking finds no other match: a shorter run of
  digits is followed by a digit, not by the dot, and a sign that is not consumed is neither
  a digit nor the dot.) \<open>match_int\<close> is the second alternative, tried at the same position
  only when the first one fails. \<open>findall\<close> scans from the left and resumes after each
  match; no match is empty.
\<close>

definition is_digit :: "char \<Rightarrow> bool" where
  "is_digit c = (c \<in> set ''0123456789'')"

definition is_sign :: "char \<Rightarrow> bool" where
  "is_sign c = (c = CHR ''-'' \<or> c = CHR ''+'')"

definition match_float :: "string \<Rightarrow> nat option" where
  "match_float s =
     (let signed = (case s of [] \<Rightarrow> False | c # _ \<Rightarrow> is_sign c);
          body = (if signed then tl s else s);
          int_part = takeWhile is_digit body;
          rest = dropWhile is_digit body
      in case rest of
           [] \<Rightarrow> None
         | c # after_dot \<Rightarrow>
             if c = CHR ''.'' \<and> takeWhile is_digit after_dot \<noteq> []
             then Some ((if signed then 1 else 0) + length int_part + 1
                        + length (takeWhile is_digit after_dot))
             else None)"

definition match_int :: "string \<Rightarrow> nat option" where
  "match_int s =
     (let ds = takeWhile is_digit s in if ds = [] then None else Some (length ds))"

definition match_number :: "string \<Rightarrow> nat option" where
  "match_number s = (case match_float s of Some n \<Rightarrow> Some n | None \<Rightarrow> match_int s)"

text \<open>
  \<open>findall skip s\<close>: \<open>skip\<close> counts the characters of the current match that are still
  to be passed over before the scan resumes.
\<close>

fun findall :: "nat \<Rightarrow> string \<Rightarrow> string list" where
  "findall skip [] = []"
| "findall skip (c # cs) =
     (if 0 < skip then findall (skip - 1) cs
      else (case match_number (c # cs) of
              None \<Rightarrow> findall 0 cs
            | Some n \<Rightarrow> take n (c # cs) # findall (n - 1) cs))"

text \<open>
  \<^verbatim>\<open>float(token)\<close> for a token matched by the expression above: the value of the
  decimal numeral, as a real number. Python returns the double nearest to that value, and
  \<^verbatim>\<open>inf\<close> beyond the range of the doubles; the two agree exactly on the tokens whose
  value is a double (such as \<^verbatim>\<open>8\<close>, \<^verbatim>\<open>10\<close>, \<^verbatim>\<open>0.5\<close>), which are the only tokens on
  which a property below evaluates \<open>float_of_token\<close>. On any other token the model
  differs from the code by the rounding, which is not modelled.
\<close>

definition digits_value :: "string \<Rightarrow> nat" where
  "digits_value ds = foldl (\<lambda>a c. 10 * a + (of_char c - 48)) 0 ds"

definition float_of_token :: "string \<Rightarrow> real" where
  "float_of_token t =
     (let signed = (case t of [] \<Rightarrow> False | c # _ \<Rightarrow> is_sign c);
          negative = (case t of [] \<Rightarrow> False | c # _ \<Rightarrow> c = CHR ''-'');
          body = (if signed then tl t else t);
          int_part = takeWhile is_digit body;
          frac_part = drop 1 (dropWhile is_digit body);
          magnitude = real (digits_value int_part)
                      + real (digits_value frac_part) / 10 ^ length frac_part
      in if negative then - magnitude else magnitude)"

definition extract_interaction_score :: "string \<Rightarrow> real" where
  "extract_interaction_score analysis =
     (let numbers = findall 0 analysis
      in if numbers \<noteq> [] then float_of_token (last numbers) else 0.5)"

text \<open>
  \<^verbatim>\<open>analyze_risk_interactions(risks)\<close>. The external service is a parameter: \<open>oracle
  risk1 risk2\<close> is the text of the response to the prompt built from the two risks, or
  \<open>None\<close> when the call raises (the exception is not caught, so the whole function raises).
  The outer loop runs over the risks, the inner one over the risks after the current one
  (\<^verbatim>\<open>risks[i+1:]\<close>); \<open>interactions\<close> is the list appended to.
\<close>

type_synonym scoring_oracle = "risk \<Rightarrow> risk \<Rightarrow> string option"

fun score_against :: "scoring_oracle \<Rightarrow> risk \<Rightarrow> risk list \<Rightarrow> real risk_interaction list
    \<Rightarrow> error + real risk_interaction list" where
  "score_against oracle risk1 [] interactions = Inr interactions"
| "score_against oracle risk1 (risk2 # rest) interactions =
     (case oracle risk1 risk2 of
        None \<Rightarrow> Inl OracleFailure
      | Some analysis \<Rightarrow>
          (let score = extract_interaction_score analysis;
               itype = determine_interaction_type score
           in score_against oracle risk1 rest
                (interactions @
                 [\<lparr>risk1_id = risk_id risk1, risk2_id = risk_id risk2,
                   interaction_score = score, interaction_type = itype,
                   rationale = analysis\<rparr>])))"

fun score_all :: "scoring_oracle \<Rightarrow> risk list \<Rightarrow> real risk_interaction list
    \<Rightarrow> error + real risk_interaction list" where
  "score_all oracle [] interactions = Inr interactions"
| "score_all oracle (risk1 # rest) interactions =
     (case score_against oracle risk1 rest interactions of
        Inl e \<Rightarrow> Inl e
      | Inr interactions' \<Rightarrow> score_all oracle rest interactions')"

definition analyze_risk_interactions :: "scoring_oracle \<Rightarrow> risk list
    \<Rightarrow> error + real risk_interaction list" where
  "analyze_risk_interactions oracle risks = score_all oracle risks []"

text \<open>
  Auxiliary notions for stating the properties: the unordered pair of risk identifiers of
  an interaction, the pairs of a list in the order in which the two loops visit them, and
  the record the loop body appends for a pair whose oracle call returns.
\<close>

definition unordered_pair :: "('w, 'z) risk_interaction_scheme \<Rightarrow> int set" where
  "unordered_pair i = {risk1_id i, risk2_id i}"

fun all_pairs :: "'a list \<Rightarrow> ('a \<times> 'a) list" where
  "all_pairs [] = []"
| "all_pairs (x # xs) = map (Pair x) xs @ all_pairs xs"

definition scored :: "scoring_oracle \<Rightarrow> risk \<times> risk \<Rightarrow> real risk_interaction" where
  "scored oracle p =
     (let analysis = the (oracle (fst p) (snd p));
          score = extract_interaction_score analysis
      in \<lparr>risk1_id = risk_id (fst p), risk2_id = risk_id (snd p),
          interaction_score = score,
          interaction_type = determine_interaction_type score,
          rationale = analysis\<rparr>)"

text \<open>
  The fixtures of the tests: the risk \<^verbatim>\<open>Risk(id=i, description=..., category="Physical",
  likelihood=0.5, impact=0.5, ...)\<close> of the edge-case tests.
\<close>

definition sample_risk :: "int \<Rightarrow> risk" where
  "sample_risk i =
     \<lparr>risk_id = i, description = ''Risk'', category = ''Physical'',
      likelihood = 0.5, impact = 0.5, subcategory = [], tertiary_category = [],
      time_horizon = [], industry_specific = False, sasb_category = []\<rparr>"

subsection \<open>RiskGraph\<close>

text \<open>
  The \<^verbatim>\<open>networkx.Graph\<close> that \<^verbatim>\<open>build_risk_network\<close> returns. The library keeps two
  dictionaries with the same keys in the same order, \<^verbatim>\<open>_node\<close> (node to attribute
  dictionary) and \<^verbatim>\<open>_adj\<close> (node to adjacency dictionary, neighbour to edge data); a
  graph is one association list from a node to the pair of both. The attribute dictionary
  of a node is the \<^verbatim>\<open>Risk\<close> it was added with, or empty (\<open>None\<close>) for a node that
  \<^verbatim>\<open>add_edge\<close> created. Every edge of the risk graph carries the two attributes
  \<^verbatim>\<open>weight\<close> and \<^verbatim>\<open>type\<close> (the field \<open>edge_type\<close>).
\<close>

record 'w edge_data =
  weight :: 'w
  edge_type :: string

record 'w node_entry =
  attrs :: "risk option"
  adj :: "(int \<times> 'w edge_data) list"

type_synonym 'w graph = "(int \<times> 'w node_entry) list"

text \<open>\<^verbatim>\<open>G.nodes()\<close>, in insertion order.\<close>

definition nodes :: "'w graph \<Rightarrow> int list" where
  "nodes G = map fst G"

text \<open>
  \<^verbatim>\<open>G[node]\<close>, the adjacency dictionary of a node, whose keys are \<^verbatim>\<open>G.neighbors(node)\<close>.
  (The library raises for a node that is not in the graph; the routines below look up
  nodes of the graph only.)
\<close>

definition adjacency :: "'w graph \<Rightarrow> int \<Rightarrow> (int \<times> 'w edge_data) list" where
  "adjacency G node = (case map_of G node of None \<Rightarrow> [] | Some e \<Rightarrow> adj e)"

text \<open>
  \<^verbatim>\<open>G.add_node(n, **attr)\<close>: a new node gets an empty adjacency dictionary and the
  attributes; for a node that exists the attributes are updated (here: replaced, since
  every call passes all the fields of a risk).
\<close>

definition add_node :: "int \<Rightarrow> risk \<Rightarrow> 'w graph \<Rightarrow> 'w graph" where
  "add_node n r G =
     (if n \<in> fst ` set G then AList.map_entry n (\<lambda>e. e\<lparr>attrs := Some r\<rparr>) G
      else G @ [(n, \<lparr>attrs = Some r, adj = []\<rparr>)])"

text \<open>
  \<^verbatim>\<open>G.add_edge(u, v, weight=..., type=...)\<close>: an end that is not a node yet is added
  with no attributes; then the edge data is stored under \<^verbatim>\<open>_adj[u][v]\<close> and under
  \<^verbatim>\<open>_adj[v][u]\<close>, replacing the data of an edge that exists.
\<close>

definition ensure_node :: "int \<Rightarrow> 'w graph \<Rightarrow> 'w graph" where
  "ensure_node n G =
     (if n \<in> fst ` set G then G else G @ [(n, \<lparr>attrs = None, adj = []\<rparr>)])"

definition set_adj :: "int \<Rightarrow> int \<Rightarrow> 'w edge_data \<Rightarrow> 'w graph \<Rightarrow> 'w graph" where
  "set_adj u v d G = AList.map_entry u (\<lambda>e. e\<lparr>adj := AList.update v d (adj e)\<rparr>) G"

definition add_edge :: "int \<Rightarrow> int \<Rightarrow> 'w edge_data \<Rightarrow> 'w graph \<Rightarrow> 'w graph" where
  "add_edge u v d G = set_adj v u d (set_adj u v d (ensure_node v (ensure_node u G)))"

text \<open>
  \<^verbatim>\<open>build_risk_network(risks, interactions)\<close>: the first loop adds a node per risk, the
  second one, whose body is \<open>add_interaction\<close>, an edge per interaction. Neither loop
  checks anything, and nothing raises.
\<close>

definition add_interaction :: "'w risk_interaction \<Rightarrow> 'w graph \<Rightarrow> 'w graph" where
  "add_interaction interaction G =
     add_edge (risk1_id interaction) (risk2_id interaction)
       \<lparr>weight = interaction_score interaction, edge_type = interaction_type interaction\<rparr> G"

definition build_risk_network :: "risk list \<Rightarrow> 'w risk_interaction list \<Rightarrow> 'w graph" where
  "build_risk_network risks interactions =
     fold add_interaction interactions
       (fold (\<lambda>risk. add_node (risk_id risk) risk) risks [])"

text \<open>
  The queries of the tests and of the specification: \<^verbatim>\<open>len(G.nodes)\<close>; \<^verbatim>\<open>len(G.edges)\<close>, for
  which the library halves the sum of the degrees, a self-loop counting twice; and
  \<^verbatim>\<open>G[a][b]['weight']\<close>, \<open>None\<close> when \<open>a\<close> is not a node or \<open>b\<close> not a neighbour of it.
\<close>

definition number_of_nodes :: "'w graph \<Rightarrow> nat" where
  "number_of_nodes G = length G"

definition degree_sum :: "'w graph \<Rightarrow> nat" where
  "degree_sum G =
     sum_list (map (\<lambda>p. length (adj (snd p))
                         + (if fst p \<in> fst ` set (adj (snd p)) then 1 else 0)) G)"

definition number_of_edges :: "'w graph \<Rightarrow> nat" where
  "number_of_edges G = degree_sum G div 2"

definition edge_weight :: "'w graph \<Rightarrow> int \<Rightarrow> int \<Rightarrow> 'w option" where
  "edge_weight G a b =
     (case map_of G a of None \<Rightarrow> None | Some e \<Rightarrow> map_option weight (map_of (adj e) b))"

definition has_edge :: "'w graph \<Rightarrow> int \<Rightarrow> int \<Rightarrow> bool" where
  "has_edge G a b = (b \<in> fst ` set (adjacency G a))"

text \<open>
  The inputs that section 7 of the specification calls a graph integrity error: an
  interaction that references an identifier of no risk, or an unordered pair supplied
  twice.
\<close>

definition graph_integrity_violated :: "risk list \<Rightarrow> 'w risk_interaction list \<Rightarrow> bool" where
  "graph_integrity_violated risks interactions =
     ((\<exists>i\<in>set interactions.
          risk1_id i \<notin> risk_id ` set risks \<or> risk2_id i \<notin> risk_id ` set risks)
      \<or> \<not> distinct (map unordered_pair interactions))"

subsection \<open>CascadeSimulator\<close>

text \<open>
  \<^verbatim>\<open>interaction_analysis.analyze_risk_cascades(G, initial_risks, threshold, max_steps)\<close>.
  The state \<^verbatim>\<open>cascade_progression\<close> is a dictionary from a node to its list of
  activations. One function per part of the loop body:
  \<^item> \<open>neighbor_influence\<close> is the \<^verbatim>\<open>sum(...)\<close> over the neighbours of a node, added up from
    \<open>0\<close> in the order of the adjacency dictionary; a neighbour that is not tracked counts with
    the last element of \<^verbatim>\<open>[0]\<close>;
  \<^item> \<open>new_activations\<close> is the dictionary the first inner loop fills;
  \<^item> \<open>backfill\<close> is the second inner loop: \<^verbatim>\<open>next(iter(cascade_progression.values()))\<close>
    is the list of the first key, and raises \<^verbatim>\<open>StopIteration\<close> when the dictionary is
    empty;
  \<^item> \<open>hold_last\<close> is the third inner loop, \<^verbatim>\<open>progression.append(progression[-1])\<close>; no
    two keys share a list, and no list is empty;
  \<^item> \<open>cascade_loop k\<close> is the \<^verbatim>\<open>for\<close> loop with \<open>k\<close> iterations left, whose
    \<^verbatim>\<open>break\<close> returns the state unchanged.
\<close>

type_synonym 'w progression = "(int \<times> 'w list) list"

definition neighbor_influence ::
    "('w::{zero,one,plus,times,ord}) graph \<Rightarrow> 'w progression \<Rightarrow> int \<Rightarrow> 'w" where
  "neighbor_influence G cascade_progression node =
     foldl (+) 0
       (map (\<lambda>(neighbor, d).
               last (case map_of cascade_progression neighbor of
                       None \<Rightarrow> [0] | Some progression \<Rightarrow> progression)
               * weight d)
          (adjacency G node))"

definition new_activations ::
    "('w::{zero,one,plus,times,ord}) graph \<Rightarrow> 'w progression \<Rightarrow> 'w \<Rightarrow> (int \<times> 'w) list" where
  "new_activations G cascade_progression threshold =
     fold (\<lambda>node activations.
             if node \<notin> fst ` set cascade_progression
             then (if threshold < neighbor_influence G cascade_progression node
                   then AList.update node (neighbor_influence G cascade_progression node)
                          activations
                   else activations)
             else activations)
       (nodes G) []"

fun backfill :: "(int \<times> 'w) list \<Rightarrow> ('w::{zero,one,plus,times,ord}) progression
    \<Rightarrow> error + 'w progression" where
  "backfill [] cascade_progression = Inr cascade_progression"
| "backfill ((node, activation) # rest) cascade_progression =
     (case cascade_progression of
        [] \<Rightarrow> Inl StopIteration
      | (first_key, first_progression) # _ \<Rightarrow>
          backfill rest
            (AList.update node
               (replicate (length first_progression - 1) 0 @ [activation])
               cascade_progression))"

definition hold_last :: "'w progression \<Rightarrow> 'w progression" where
  "hold_last cascade_progression =
     map (\<lambda>(node, progression). (node, progression @ [last progression]))
       cascade_progression"

fun cascade_loop :: "nat \<Rightarrow> ('w::{zero,one,plus,times,ord}) graph \<Rightarrow> 'w \<Rightarrow> 'w progression
    \<Rightarrow> error + 'w progression" where
  "cascade_loop 0 G threshold cascade_progression = Inr cascade_progression"
| "cascade_loop (Suc k) G threshold cascade_progression =
     (let activations = new_activations G cascade_progression threshold
      in if activations = [] then Inr cascade_progression
         else (case backfill activations cascade_progression of
                 Inl e \<Rightarrow> Inl e
               | Inr cascade_progression' \<Rightarrow>
                   cascade_loop k G threshold (hold_last cascade_progression')))"

text \<open>
  The dictionary comprehension \<^verbatim>\<open>{risk: [1.0] for risk in initial_risks}\<close>, and
  \<^verbatim>\<open>range(max_steps)\<close>, which is empty for a negative \<^verbatim>\<open>max_steps\<close>.
\<close>

definition seed_progression :: "int list \<Rightarrow> ('w::{zero,one,plus,times,ord}) progression" where
  "seed_progression initial_risks = fold (\<lambda>risk. AList.update risk [1]) initial_risks []"

definition analyze_risk_cascades ::
    "('w::{zero,one,plus,times,ord}) graph \<Rightarrow> int list \<Rightarrow> 'w \<Rightarrow> int
     \<Rightarrow> error + 'w progression" where
  "analyze_risk_cascades G initial_risks threshold max_steps =
     cascade_loop (nat max_steps) G threshold (seed_progression initial_risks)"

text \<open>
  The number of iterations of the loop that ran to their end (each of them made new
  activations and appended one entry to every list): the same recursion as
  \<open>cascade_loop\<close>, counting.
\<close>

fun completed_steps :: "nat \<Rightarrow> ('w::{zero,one,plus,times,ord}) graph \<Rightarrow> 'w \<Rightarrow> 'w progression
    \<Rightarrow> nat" where
  "completed_steps 0 G threshold cascade_progression = 0"
| "completed_steps (Suc k) G threshold cascade_progression =
     (let activations = new_activations G cascade_progression threshold
      in if activations = [] then 0
         else (case backfill activations cascade_progression of
                 Inl e \<Rightarrow> 0
               | Inr cascade_progression' \<Rightarrow>
                   Suc (completed_steps k G threshold (hold_last cascade_progression'))))"

text \<open>
  \<^verbatim>\<open>systemic_risk_analysis.analyze_risk_cascades(risk_network, initial_risks, threshold,
  max_steps)\<close>, translated from its own text in the same way.
\<close>

definition systemic_neighbor_influence ::
    "('w::{zero,one,plus,times,ord}) graph \<Rightarrow> 'w progression \<Rightarrow> int \<Rightarrow> 'w" where
  "systemic_neighbor_influence risk_network cascade_progression node =
     foldl (+) 0
       (map (\<lambda>(neighbor, d).
               last (case map_of cascade_progression neighbor of
                       None \<Rightarrow> [0] | Some progression \<Rightarrow> progression)
               * weight d)
          (adjacency risk_network node))"

definition systemic_new_activations ::
    "('w::{zero,one,plus,times,ord}) graph \<Rightarrow> 'w progression \<Rightarrow> 'w \<Rightarrow> (int \<times> 'w) list" where
  "systemic_new_activations risk_network cascade_progression threshold =
     fold (\<lambda>node activations.
             if node \<notin> fst ` set cascade_progression
             then (if threshold < systemic_neighbor_influence risk_network cascade_progression node
                   then AList.update node
                          (systemic_neighbor_influence risk_network cascade_progression node)
                          activations
                   else activations)
             else activations)
       (nodes risk_network) []"

fun systemic_backfill :: "(int \<times> 'w) list \<Rightarrow> ('w::{zero,one,plus,times,ord}) progression
    \<Rightarrow> error + 'w progression" where
  "systemic_backfill [] cascade_progression = Inr cascade_progression"
| "systemic_backfill ((node, activation) # rest) cascade_progression =
     (case cascade_progression of
        [] \<Rightarrow> Inl StopIteration
      | (first_key, first_progression) # _ \<Rightarrow>
          systemic_backfill rest
            (AList.update node
               (replicate (length first_progression - 1) 0 @ [activation])
               cascade_progression))"

definition systemic_hold_last :: "'w progression \<Rightarrow> 'w progression" where
  "systemic_hold_last cascade_progression =
     map (\<lambda>(node, progression). (node, progression @ [last progression]))
       cascade_progression"

fun systemic_cascade_loop :: "nat \<Rightarrow> ('w::{zero,one,plus,times,ord}) graph \<Rightarrow> 'w
    \<Rightarrow> 'w progression \<Rightarrow> error + 'w progression" where
  "systemic_cascade_loop 0 risk_network threshold cascade_progression =
     Inr cascade_progression"
| "systemic_cascade_loop (Suc k) risk_network threshold cascade_progression =
     (let activations = systemic_new_activations risk_network cascade_progression threshold
      in if activations = [] then Inr cascade_progression
         else (case systemic_backfill activations cascade_progression of
                 Inl e \<Rightarrow> Inl e
               | Inr cascade_progression' \<Rightarrow>
                   systemic_cascade_loop k risk_network threshold
                     (systemic_hold_last cascade_progression')))"

definition systemic_analyze_risk_cascades ::
    "('w::{zero,one,plus,times,ord}) graph \<Rightarrow> int list \<Rightarrow> 'w \<Rightarrow> int
     \<Rightarrow> error + 'w progression" where
  "systemic_analyze_risk_cascades risk_network initial_risks threshold max_steps =
     systemic_cascade_loop (nat max_steps) risk_network threshold
       (fold (\<lambda>risk. AList.update risk [1]) initial_risks [])"

text \<open>
  A chain of three risks, \<open>1 - 2 - 3\<close>, both edges of weight 0.9, built by
  \<open>build_risk_network\<close>; and the graph of the tests (four risks, five interactions).
\<close>

definition sample_interaction :: "int \<Rightarrow> int \<Rightarrow> real \<Rightarrow> real risk_interaction" where
  "sample_interaction a b s =
     \<lparr>risk1_id = a, risk2_id = b, interaction_score = s,
      interaction_type = determine_interaction_type s, rationale = []\<rparr>"

definition chain_network :: "real graph" where
  "chain_network =
     build_risk_network [sample_risk 1, sample_risk 2, sample_risk 3]
       [sample_interaction 1 2 0.9, sample_interaction 2 3 0.9]"

definition sample_network :: "real graph" where
  "sample_network =
     build_risk_network [sample_risk 1, sample_risk 2, sample_risk 3, sample_risk 4]
       [sample_interaction 1 2 0.7, sample_interaction 1 3 0.4, sample_interaction 2 3 0.6,
        sample_interaction 2 4 0.8, sample_interaction 3 4 0.5]"

text \<open>
  The invariant of the loop. With \<open>S\<close> the seeds and \<open>L\<close> the number of entries written so
  far, every tracked list has \<open>L\<close> entries; the list of a seed is \<open>L\<close> times \<open>1\<close>; the list
  of any other tracked node is a run of backfilled zeros followed by one value above the
  threshold, repeated to the end. The state is never empty and tracks every seed.
\<close>

definition entry_ok ::
    "int set \<Rightarrow> ('w::{zero,one,plus,times,ord}) \<Rightarrow> nat \<Rightarrow> int \<times> 'w list \<Rightarrow> bool" where
  "entry_ok S threshold L e =
     (length (snd e) = L \<and>
      (if fst e \<in> S then snd e = replicate L 1
       else (\<exists>j a. j < L \<and> threshold < a \<and> snd e = replicate j 0 @ replicate (L - j) a)))"

definition tracked_ok ::
    "int set \<Rightarrow> ('w::{zero,one,plus,times,ord}) \<Rightarrow> nat \<Rightarrow> 'w progression \<Rightarrow> bool" where
  "tracked_ok S threshold L cp =
     (cp \<noteq> [] \<and> S \<subseteq> fst ` set cp \<and> list_all (entry_ok S threshold L) cp)"

definition steps_simulated ::
    "('w::{zero,one,plus,times,ord}) graph \<Rightarrow> int list \<Rightarrow> 'w \<Rightarrow> int \<Rightarrow> nat" where
  "steps_simulated G initial_risks threshold max_steps =
     completed_steps (nat max_steps) G threshold (seed_progression initial_risks)"

subsection \<open>FeedbackLoopFinder\<close>

text \<open>
  \<^verbatim>\<open>identify_risk_feedback_loops\<close> of both modules: the list of the cycles that
  \<^verbatim>\<open>networkx.simple_cycles\<close> yields, filtered by length. The library function is a
  parameter, \<open>simple_cycles\<close>. \<open>is_cycle_of G c\<close> is what the library documents of each
  cycle it yields: a non-empty list of distinct nodes in which every node is adjacent to
  the next one and the last one to the first (\<open>rotate1 c\<close> is \<open>c\<close> with its head moved to
  the end).
\<close>

definition is_cycle_of :: "'w graph \<Rightarrow> int list \<Rightarrow> bool" where
  "is_cycle_of G c =
     (c \<noteq> [] \<and> distinct c \<and> list_all (\<lambda>p. has_edge G (fst p) (snd p)) (zip c (rotate1 c)))"

definition identify_risk_feedback_loops ::
    "('w graph \<Rightarrow> int list list) \<Rightarrow> 'w graph \<Rightarrow> int list list" where
  "identify_risk_feedback_loops simple_cycles G =
     (let feedback_loops = simple_cycles G
      in filter (\<lambda>loop. 2 < length loop) feedback_loops)"

definition systemic_identify_risk_feedback_loops ::
    "('w graph \<Rightarrow> int list list) \<Rightarrow> 'w graph \<Rightarrow> int list list" where
  "systemic_identify_risk_feedback_loops simple_cycles risk_network =
     (let feedback_loops = simple_cycles risk_network
      in filter (\<lambda>loop. 2 < length loop) feedback_loops)"

text \<open>
  A network with the triangle \<open>1 - 2 - 3\<close> and a self-loop at node 5, and what the library
  yields for it: the triangle, and the self-loop as a cycle of one node.
\<close>

definition looped_network :: "real graph" where
  "looped_network =
     build_risk_network [sample_risk 1, sample_risk 2, sample_risk 3, sample_risk 5]
       [sample_interaction 1 2 0.7, sample_interaction 2 3 0.6, sample_interaction 1 3 0.4,
        sample_interaction 5 5 0.1]"

definition looped_network_cycles :: "real graph \<Rightarrow> int list list" where
  "looped_network_cycles G = [[1, 2, 3], [5]]"

subsection \<open>ResilienceAnalyzer\<close>

text \<open>
  \<^verbatim>\<open>networkx.average_shortest_path_length(G, weight='weight')\<close>, as the library
  documents it: it raises \<^verbatim>\<open>NetworkXPointlessConcept\<close> for the graph with no node,
  returns 0 for a single node, raises \<^verbatim>\<open>NetworkXError\<close> ("Graph is not connected.") when
  the undirected graph is not connected, and computes the average otherwise (the
  computation, \<open>path_length\<close>, is a parameter). \<open>is_connected\<close> is the library's test: the
  nodes reached from the first node are all the nodes; \<open>reachable k G seen\<close> adds the
  neighbours of the nodes seen, \<open>k\<close> times.
\<close>

fun reachable :: "nat \<Rightarrow> 'w graph \<Rightarrow> int list \<Rightarrow> int list" where
  "reachable 0 G seen = seen"
| "reachable (Suc k) G seen =
     reachable k G (remdups (seen @ concat (map (\<lambda>n. map fst (adjacency G n)) seen)))"

definition is_connected :: "'w graph \<Rightarrow> bool" where
  "is_connected G =
     (case G of [] \<Rightarrow> False
      | (n, _) # _ \<Rightarrow> length (reachable (length G) G [n]) = length G)"

definition nx_average_shortest_path_length ::
    "('w graph \<Rightarrow> 'm) \<Rightarrow> 'w graph \<Rightarrow> error + ('m::zero)" where
  "nx_average_shortest_path_length path_length G =
     (if length G = 0 then Inl NetworkXPointlessConcept
      else if length G = 1 then Inr 0
      else if \<not> is_connected G then Inl NetworkXError
      else Inr (path_length G))"

text \<open>
  \<^verbatim>\<open>interaction_analysis.analyze_network_resilience(G)\<close> and
  \<^verbatim>\<open>systemic_risk_analysis.assess_network_resilience(risk_network)\<close>: the four entries
  of the dictionary are evaluated in the order written, and an exception of any of them
  leaves the function. The three other library functions are parameters, each of which
  may raise.
\<close>

record 'm resilience_metrics =
  average_clustering :: 'm
  average_shortest_path_length :: 'm
  graph_density :: 'm
  assortativity :: 'm

definition analyze_network_resilience ::
    "('w graph \<Rightarrow> error + 'm) \<Rightarrow> ('w graph \<Rightarrow> 'm) \<Rightarrow> ('w graph \<Rightarrow> error + 'm)
     \<Rightarrow> ('w graph \<Rightarrow> error + 'm) \<Rightarrow> 'w graph \<Rightarrow> error + ('m::zero) resilience_metrics" where
  "analyze_network_resilience nx_average_clustering path_length nx_density
       nx_degree_assortativity_coefficient G =
     (case nx_average_clustering G of
        Inl e \<Rightarrow> Inl e
      | Inr c \<Rightarrow>
     (case nx_average_shortest_path_length path_length G of
        Inl e \<Rightarrow> Inl e
      | Inr l \<Rightarrow>
     (case nx_density G of
        Inl e \<Rightarrow> Inl e
      | Inr d \<Rightarrow>
     (case nx_degree_assortativity_coefficient G of
        Inl e \<Rightarrow> Inl e
      | Inr a \<Rightarrow>
          Inr \<lparr>average_clustering = c, average_shortest_path_length = l,
               graph_density = d, assortativity = a\<rparr>))))"

definition assess_network_resilience ::
    "('w graph \<Rightarrow> error + 'm) \<Rightarrow> ('w graph \<Rightarrow> 'm) \<Rightarrow> ('w graph \<Rightarrow> error + 'm)
     \<Rightarrow> ('w graph \<Rightarrow> error + 'm) \<Rightarrow> 'w graph \<Rightarrow> error + ('m::zero) resilience_metrics" where
  "assess_network_resilience nx_average_clustering path_length nx_density
       nx_degree_assortativity_coefficient risk_network =
     (case nx_average_clustering risk_network of
        Inl e \<Rightarrow> Inl e
      | Inr c \<Rightarrow>
     (case nx_average_shortest_path_length path_length risk_network of
        Inl e \<Rightarrow> Inl e
      | Inr l \<Rightarrow>
     (case nx_density risk_network of
        Inl e \<Rightarrow> Inl e
      | Inr d \<Rightarrow>
     (case nx_degree_assortativity_coefficient risk_network of
        Inl e \<Rightarrow> Inl e
      | Inr a \<Rightarrow>
          Inr \<lparr>average_clustering = c, average_shortest_path_length = l,
               graph_density = d, assortativity = a\<rparr>))))"

text \<open>
  The disconnected network of \<^verbatim>\<open>test_network_analysis_edge_cases\<close>: four risks, the
  interactions \<open>1 - 2\<close> and \<open>3 - 4\<close> of score 0.5.
\<close>

definition disconnected_network :: "real graph" where
  "disconnected_network =
     build_risk_network [sample_risk 1, sample_risk 2, sample_risk 3, sample_risk 4]
       [sample_interaction 1 2 0.5, sample_interaction 3 4 0.5]"

section \<open>Properties of the scorer\<close>

text \<open>
  C2. The classification depends on the score alone, with the bands of the source: a score
  below 0.3 is Weak, a score from 0.3 up to but excluding 0.7 is Moderate, a score of 0.7
  or more is Strong; in particular 0.29 is Weak, 0.30 and 0.69 are Moderate, 0.70 is
  Strong.
\<close>

theorem determine_interaction_type_bands:
  "(s < 0.3 \<longrightarrow> determine_interaction_type s = ''Weak'')
   \<and> (0.3 \<le> s \<and> s < 0.7 \<longrightarrow> determine_interaction_type s = ''Moderate'')
   \<and> (0.7 \<le> s \<longrightarrow> determine_interaction_type s = ''Strong'')
   \<and> determine_interaction_type 0.29 = ''Weak''
   \<and> determine_interaction_type 0.30 = ''Moderate''
   \<and> determine_interaction_type 0.69 = ''Moderate''
   \<and> determine_interaction_type 0.70 = ''Strong''"
  by (simp add: determine_interaction_type_def)

theorem determine_interaction_type_bands_witness:
  "determine_interaction_type 0.1 = ''Weak''
   \<and> determine_interaction_type 0.5 = ''Moderate''
   \<and> determine_interaction_type 0.9 = ''Strong''"
proof -
  have "determine_interaction_type 0.1 = ''Weak''"
    using determine_interaction_type_bands [of "0.1"] by simp
  moreover have "determine_interaction_type 0.5 = ''Moderate''"
    using determine_interaction_type_bands [of "0.5"] by simp
  moreover have "determine_interaction_type 0.9 = ''Strong''"
    using determine_interaction_type_bands [of "0.9"] by simp
  ultimately show ?thesis by simp
qed


lemma score_against_eq:
  "score_against oracle r1 rest acc =
     (if list_all (\<lambda>r2. oracle r1 r2 \<noteq> None) rest
      then Inr (acc @ map (\<lambda>r2. scored oracle (r1, r2)) rest)
      else Inl OracleFailure)"
  by (induction rest arbitrary: acc) (auto simp: scored_def Let_def split: option.splits)

lemma score_all_eq:
  "score_all oracle rs acc =
     (if list_all (\<lambda>p. oracle (fst p) (snd p) \<noteq> None) (all_pairs rs)
      then Inr (acc @ map (scored oracle) (all_pairs rs))
      else Inl OracleFailure)"
proof (induction rs arbitrary: acc)
  case Nil
  then show ?case by simp
next
  case (Cons r rs)
  have split: "list_all (\<lambda>p. oracle (fst p) (snd p) \<noteq> None) (all_pairs (r # rs))
      = (list_all (\<lambda>r2. oracle r r2 \<noteq> None) rs
         \<and> list_all (\<lambda>p. oracle (fst p) (snd p) \<noteq> None) (all_pairs rs))"
    by (simp add: list_all_iff ball_Un)
  show ?case
    unfolding split by (simp add: score_against_eq Cons.IH comp_def)
qed

lemma length_all_pairs: "length (all_pairs xs) = length xs * (length xs - 1) div 2"
proof (induction xs)
  case Nil
  then show ?case by simp
next
  case (Cons x xs)
  have "2 * length xs + length xs * (length xs - 1) = Suc (length xs) * length xs"
    by (cases "length xs") simp_all
  then show ?case using Cons by simp
qed


lemma set_all_pairs: "(a, b) \<in> set (all_pairs xs) \<Longrightarrow> a \<in> set xs \<and> b \<in> set xs"
  by (induction xs) auto

lemma all_pairs_neq: "distinct xs \<Longrightarrow> (a, b) \<in> set (all_pairs xs) \<Longrightarrow> a \<noteq> b"
proof (induction xs)
  case Nil
  then show ?case by simp
next
  case (Cons x xs)
  from Cons.prems(2) consider "a = x \<and> b \<in> set xs" | "(a, b) \<in> set (all_pairs xs)"
    by auto
  then show ?case
  proof cases
    case 1
    then show ?thesis using Cons.prems(1) by auto
  next
    case 2
    then show ?thesis using Cons by simp
  qed
qed


lemma distinct_all_pairs:
  "distinct xs \<Longrightarrow> distinct (map (\<lambda>p. {fst p, snd p}) (all_pairs xs))"
proof (induction xs)
  case Nil
  then show ?case by simp
next
  case (Cons x xs)
  have x: "x \<notin> set xs" and d: "distinct xs"
    using Cons.prems by simp_all
  have "inj_on (\<lambda>y. {x, y}) (set xs)"
    by (rule inj_onI) (auto simp: doubleton_eq_iff)
  then have 1: "distinct (map (\<lambda>y. {x, y}) xs)"
    using d by (simp add: distinct_map)
  have 2: "distinct (map (\<lambda>p. {fst p, snd p}) (all_pairs xs))"
    using Cons.IH d by simp
  have 3: "{x, y} \<noteq> {fst p, snd p}" if "p \<in> set (all_pairs xs)" for p y
  proof -
    have "fst p \<in> set xs" "snd p \<in> set xs"
      using set_all_pairs [of "fst p" "snd p" xs] that by simp_all
    then have "x \<noteq> fst p" "x \<noteq> snd p"
      using x by blast+
    then show ?thesis
      by (simp add: doubleton_eq_iff)
  qed
  have 4: "(\<lambda>y. {x, y}) ` set xs \<inter> (\<lambda>p. {fst p, snd p}) ` set (all_pairs xs) = {}"
    using 3 by blast
  show ?case
    using 1 2 4 by (simp add: comp_def)
qed

lemma all_pairs_map: "all_pairs (map f xs) = map (map_prod f f) (all_pairs xs)"
  by (induction xs) simp_all


text \<open>
  C7. For risks with distinct identifiers, whenever \<open>analyze_risk_interactions\<close> returns, it
  returns exactly \<open>n * (n - 1) div 2\<close> interactions, no two of them on the same unordered
  pair of identifiers and none pairing a risk with itself; and it does return when every
  call of the oracle returns.
\<close>

theorem analyze_risk_interactions_all_pairs:
  assumes "distinct (map risk_id risks)"
  shows "(\<forall>xs. analyze_risk_interactions oracle risks = Inr xs \<longrightarrow>
            length xs = length risks * (length risks - 1) div 2
            \<and> distinct (map unordered_pair xs)
            \<and> (\<forall>x\<in>set xs. risk1_id x \<noteq> risk2_id x))
         \<and> ((\<forall>a\<in>set risks. \<forall>b\<in>set risks. oracle a b \<noteq> None) \<longrightarrow>
            (\<exists>xs. analyze_risk_interactions oracle risks = Inr xs))"
proof (intro conjI allI impI)
  fix xs
  assume r: "analyze_risk_interactions oracle risks = Inr xs"
  then have xs: "xs = map (scored oracle) (all_pairs risks)"
    by (simp add: analyze_risk_interactions_def score_all_eq split: if_splits)
  show "length xs = length risks * (length risks - 1) div 2"
    by (simp add: xs length_all_pairs)
  have ids: "map (\<lambda>p. (risk_id (fst p), risk_id (snd p))) (all_pairs risks)
             = all_pairs (map risk_id risks)"
    by (simp add: all_pairs_map map_prod_def case_prod_beta)
  have "map unordered_pair xs
        = map (\<lambda>q. {fst q, snd q}) (map (\<lambda>p. (risk_id (fst p), risk_id (snd p))) (all_pairs risks))"
    by (simp add: xs unordered_pair_def scored_def Let_def comp_def)
  then have "map unordered_pair xs = map (\<lambda>q. {fst q, snd q}) (all_pairs (map risk_id risks))"
    by (simp only: ids)
  then show "distinct (map unordered_pair xs)"
    using distinct_all_pairs [OF assms] by simp
  show "\<forall>x\<in>set xs. risk1_id x \<noteq> risk2_id x"
  proof
    fix x
    assume "x \<in> set xs"
    then obtain p where p: "p \<in> set (all_pairs risks)" and x: "x = scored oracle p"
      by (auto simp: xs)
    have "(risk_id (fst p), risk_id (snd p)) \<in> set (all_pairs (map risk_id risks))"
      using p by (simp add: all_pairs_map map_prod_def case_prod_beta image_iff) force
    then have "risk_id (fst p) \<noteq> risk_id (snd p)"
      using all_pairs_neq [OF assms] by blast
    then show "risk1_id x \<noteq> risk2_id x"
      by (simp add: x scored_def Let_def)
  qed
next
  assume ok: "\<forall>a\<in>set risks. \<forall>b\<in>set risks. oracle a b \<noteq> None"
  have "list_all (\<lambda>p. oracle (fst p) (snd p) \<noteq> None) (all_pairs risks)"
    unfolding list_all_iff
  proof
    fix p
    assume "p \<in> set (all_pairs risks)"
    then have "fst p \<in> set risks \<and> snd p \<in> set risks"
      using set_all_pairs [of "fst p" "snd p" risks] by simp
    then show "oracle (fst p) (snd p) \<noteq> None"
      using ok by blast
  qed
  then show "\<exists>xs. analyze_risk_interactions oracle risks = Inr xs"
    by (simp add: analyze_risk_interactions_def score_all_eq)
qed

theorem analyze_risk_interactions_all_pairs_witness:
  "distinct (map risk_id [sample_risk 1, sample_risk 2, sample_risk 3])
   \<and> (\<exists>xs. analyze_risk_interactions (\<lambda>a b. Some ''0.5'')
              [sample_risk 1, sample_risk 2, sample_risk 3] = Inr xs
           \<and> length xs = 3
           \<and> map (\<lambda>x. (risk1_id x, risk2_id x)) xs = [(1, 2), (1, 3), (2, 3)]
           \<and> distinct (map unordered_pair xs))"
proof -
  define rs where "rs = [sample_risk 1, sample_risk 2, sample_risk 3]"
  define xs where "xs = map (scored (\<lambda>a b. Some ''0.5'')) (all_pairs rs)"
  have d: "distinct (map risk_id rs)"
    by (simp add: rs_def sample_risk_def)
  have r: "analyze_risk_interactions (\<lambda>a b. Some ''0.5'') rs = Inr xs"
    by (simp add: analyze_risk_interactions_def score_all_eq xs_def list_all_iff)
  have ids: "map (\<lambda>x. (risk1_id x, risk2_id x)) xs = [(1, 2), (1, 3), (2, 3)]"
    by (simp add: xs_def rs_def scored_def sample_risk_def Let_def)
  have "length xs = length rs * (length rs - 1) div 2 \<and> distinct (map unordered_pair xs)"
    using analyze_risk_interactions_all_pairs [OF d, of "\<lambda>a b. Some ''0.5''"] r
    by simp
  then have "length xs = 3" and "distinct (map unordered_pair xs)"
    by (simp_all add: rs_def)
  then have "analyze_risk_interactions (\<lambda>a b. Some ''0.5'') rs = Inr xs
           \<and> length xs = 3
           \<and> map (\<lambda>x. (risk1_id x, risk2_id x)) xs = [(1, 2), (1, 3), (2, 3)]
           \<and> distinct (map unordered_pair xs)"
    using r ids by simp
  then show ?thesis
    using d unfolding rs_def by (intro conjI exI [of _ xs]) simp_all
qed

text \<open>
  C6. The extracted score is the last numeric token of the response, whatever its value:
  nothing bounds it to the interval from 0 to 1. On the response
  \<^verbatim>\<open>Score: 8 out of 10.\<close> the tokens are \<^verbatim>\<open>8\<close> and \<^verbatim>\<open>10\<close>, and the score is 10,
  although the test of \<^verbatim>\<open>analyze_risk_interactions\<close> asserts
  \<^verbatim>\<open>0 <= interaction.interaction_score <= 1\<close> for every interaction produced.
\<close>

theorem extract_interaction_score_out_of_range:
  "findall 0 ''Score: 8 out of 10.'' = [''8'', ''10'']
   \<and> extract_interaction_score ''Score: 8 out of 10.'' = 10
   \<and> \<not> extract_interaction_score ''Score: 8 out of 10.'' \<le> 1"
  by (simp add: extract_interaction_score_def match_number_def match_float_def
      match_int_def is_digit_def is_sign_def float_of_token_def digits_value_def)

section \<open>Properties of the risk graph\<close>

lemma keys_ensure_node: "fst ` set (ensure_node n G) = insert n (fst ` set G)"
  by (auto simp: ensure_node_def)

lemma ensure_node_present: "n \<in> fst ` set G \<Longrightarrow> ensure_node n G = G"
  by (simp add: ensure_node_def)

lemma edge_weight_ensure_node: "edge_weight (ensure_node n G) a b = edge_weight G a b"
proof (cases "n \<in> fst ` set G")
  case True
  then show ?thesis by (simp add: ensure_node_def)
next
  case False
  then have n: "map_of G n = None"
    by (simp add: map_of_eq_None_iff)
  show ?thesis
  proof (cases "map_of G a")
    case None
    then show ?thesis
      using False by (simp add: ensure_node_def edge_weight_def map_add_def)
  next
    case (Some e)
    then show ?thesis
      using False by (simp add: ensure_node_def edge_weight_def map_add_def)
  qed
qed

lemma keys_set_adj: "fst ` set (set_adj u v d G) = fst ` set G"
  by (simp add: set_adj_def dom_map_entry)

lemma map_fst_map_entry: "map fst (AList.map_entry k f xs) = map fst xs"
  by (induction xs) simp_all

lemma nodes_set_adj: "nodes (set_adj u v d G) = nodes G"
  by (simp add: nodes_def set_adj_def map_fst_map_entry)

lemma edge_weight_set_adj:
  "edge_weight (set_adj u v d G) a b =
     (if a = u \<and> b = v \<and> u \<in> fst ` set G then Some (weight d) else edge_weight G a b)"
proof (cases "map_of G u")
  case None
  then have "u \<notin> fst ` set G"
    by (simp add: map_of_eq_None_iff)
  then show ?thesis
    using None by (simp add: set_adj_def edge_weight_def map_of_map_entry)
next
  case (Some e)
  then have "(u, e) \<in> set G"
    by (rule map_of_SomeD)
  then have "u \<in> fst ` set G"
    by force
  then show ?thesis
    using Some by (simp add: set_adj_def edge_weight_def map_of_map_entry update_conv')
qed

lemma edge_weight_add_edge:
  "edge_weight (add_edge u v d G) a b =
     (if (a = u \<and> b = v) \<or> (a = v \<and> b = u) then Some (weight d) else edge_weight G a b)"
proof -
  define G2 where "G2 = ensure_node v (ensure_node u G)"
  have keys: "u \<in> fst ` set G2" "v \<in> fst ` set G2"
    by (simp_all add: G2_def keys_ensure_node)
  have base: "edge_weight G2 a b = edge_weight G a b"
    by (simp add: G2_def edge_weight_ensure_node)
  have 1: "edge_weight (set_adj u v d G2) a b =
      (if a = u \<and> b = v then Some (weight d) else edge_weight G a b)"
    using keys by (simp add: edge_weight_set_adj base)
  have "v \<in> fst ` set (set_adj u v d G2)"
    using keys by (simp add: keys_set_adj)
  then have 2: "edge_weight (set_adj v u d (set_adj u v d G2)) a b =
      (if a = v \<and> b = u then Some (weight d) else edge_weight (set_adj u v d G2) a b)"
    by (simp add: edge_weight_set_adj)
  have ae: "add_edge u v d G = set_adj v u d (set_adj u v d G2)"
    by (simp add: add_edge_def G2_def)
  have 3: "edge_weight (add_edge u v d G) a b =
      (if a = v \<and> b = u then Some (weight d)
       else if a = u \<and> b = v then Some (weight d) else edge_weight G a b)"
    by (simp only: ae 2 1)
  show ?thesis
    by (simp only: 3 split: if_splits) blast
qed

lemma keys_add_edge: "fst ` set (add_edge u v d G) = insert u (insert v (fst ` set G))"
  by (auto simp: add_edge_def keys_set_adj keys_ensure_node)

lemma nodes_add_edge_present:
  "u \<in> fst ` set G \<Longrightarrow> v \<in> fst ` set G \<Longrightarrow> nodes (add_edge u v d G) = nodes G"
  by (simp add: add_edge_def nodes_set_adj ensure_node_present)


lemma edge_weight_add_interaction:
  "edge_weight (add_interaction x G) a b =
     (if unordered_pair x = {a, b} then Some (interaction_score x) else edge_weight G a b)"
proof -
  have "unordered_pair x = {a, b}
        \<longleftrightarrow> (a = risk1_id x \<and> b = risk2_id x) \<or> (a = risk2_id x \<and> b = risk1_id x)"
    unfolding unordered_pair_def doubleton_eq_iff by blast
  then show ?thesis
    by (simp add: add_interaction_def edge_weight_add_edge)
qed

lemma edge_weight_fold:
  "edge_weight (fold add_interaction xs G) a b =
     (if filter (\<lambda>x. unordered_pair x = {a, b}) xs = [] then edge_weight G a b
      else Some (interaction_score (last (filter (\<lambda>x. unordered_pair x = {a, b}) xs))))"
proof (induction xs rule: rev_induct)
  case Nil
  then show ?case by simp
next
  case (snoc x xs)
  have step: "edge_weight (fold add_interaction (xs @ [x]) G) a b =
      (if unordered_pair x = {a, b} then Some (interaction_score x)
       else edge_weight (fold add_interaction xs G) a b)"
    by (simp add: edge_weight_add_interaction)
  show ?case
  proof (cases "unordered_pair x = {a, b}")
    case True
    then have "filter (\<lambda>x. unordered_pair x = {a, b}) (xs @ [x])
               = filter (\<lambda>x. unordered_pair x = {a, b}) xs @ [x]"
      by simp
    then show ?thesis
      unfolding step using True by simp
  next
    case False
    then have "filter (\<lambda>x. unordered_pair x = {a, b}) (xs @ [x])
               = filter (\<lambda>x. unordered_pair x = {a, b}) xs"
      by simp
    then show ?thesis
      unfolding step using False snoc.IH by simp
  qed
qed

lemma keys_add_node: "fst ` set (add_node n r G) = insert n (fst ` set G)"
  by (auto simp: add_node_def dom_map_entry)

lemma nodes_add_node:
  "nodes (add_node n r G) = (if n \<in> set (nodes G) then nodes G else nodes G @ [n])"
  by (simp add: add_node_def nodes_def map_fst_map_entry)

lemma edge_weight_add_node: "edge_weight (add_node n r G) a b = edge_weight G a b"
proof (cases "n \<in> fst ` set G")
  case True
  show ?thesis
  proof (cases "map_of G a")
    case None
    then have "a \<notin> fst ` set G"
      by (simp add: map_of_eq_None_iff)
    then have "a \<noteq> n"
      using True by blast
    then show ?thesis
      using True None by (simp add: add_node_def edge_weight_def map_of_map_entry)
  next
    case (Some e)
    then show ?thesis
      using True by (cases "a = n") (simp_all add: add_node_def edge_weight_def map_of_map_entry)
  qed
next
  case False
  then have n: "map_of G n = None"
    by (simp add: map_of_eq_None_iff)
  show ?thesis
  proof (cases "map_of G a")
    case None
    then show ?thesis
      using False by (simp add: add_node_def edge_weight_def map_add_def)
  next
    case (Some e)
    then show ?thesis
      using False by (simp add: add_node_def edge_weight_def map_add_def)
  qed
qed

lemma edge_weight_add_nodes:
  "edge_weight (fold (\<lambda>risk. add_node (risk_id risk) risk) risks G) a b = edge_weight G a b"
  by (induction risks arbitrary: G) (simp_all add: edge_weight_add_node)

lemma keys_add_nodes:
  "fst ` set (fold (\<lambda>risk. add_node (risk_id risk) risk) risks G)
     = fst ` set G \<union> risk_id ` set risks"
  by (induction risks arbitrary: G) (auto simp: keys_add_node)

lemma nodes_add_nodes:
  "distinct (nodes G @ map risk_id risks) \<Longrightarrow>
   nodes (fold (\<lambda>risk. add_node (risk_id risk) risk) risks G) = nodes G @ map risk_id risks"
proof (induction risks arbitrary: G)
  case Nil
  then show ?case by simp
next
  case (Cons r rs)
  have new: "risk_id r \<notin> set (nodes G)"
    using Cons.prems by auto
  then have n: "nodes (add_node (risk_id r) r G) = nodes G @ [risk_id r]"
    by (simp add: nodes_add_node)
  have "distinct (nodes (add_node (risk_id r) r G) @ map risk_id rs)"
    using Cons.prems unfolding n by simp
  from Cons.IH [OF this] show ?case
    unfolding n by simp
qed

lemma keys_fold_interactions:
  "fst ` set (fold add_interaction xs G)
     = fst ` set G \<union> (\<Union>x\<in>set xs. {risk1_id x, risk2_id x})"
  by (induction xs arbitrary: G) (auto simp: add_interaction_def keys_add_edge)


lemma sum_map_entry:
  fixes t :: "'k \<times> 'v \<Rightarrow> nat"
  shows "map_of G u = Some e \<Longrightarrow>
         sum_list (map t (AList.map_entry u f G)) + t (u, e) = sum_list (map t G) + t (u, f e)"
proof (induction G)
  case Nil
  then show ?case by simp
next
  case (Cons p ps)
  show ?case
  proof (cases "fst p = u")
    case True
    then have "p = (u, e)"
      using Cons.prems by (cases p) simp
    then show ?thesis by simp
  next
    case False
    then have "map_of ps u = Some e"
      using Cons.prems by (cases p) (simp split: if_splits)
    from Cons.IH [OF this] show ?thesis
      using False by simp
  qed
qed

lemma sum_map_entry_same:
  fixes t :: "'k \<times> 'v \<Rightarrow> nat"
  assumes "\<And>v. t (u, f v) = t (u, v)"
  shows "sum_list (map t (AList.map_entry u f G)) = sum_list (map t G)"
proof (induction G)
  case Nil
  then show ?case by simp
next
  case (Cons p ps)
  show ?case
  proof (cases "fst p = u")
    case True
    then have "p = (u, snd p)" by (cases p) simp
    then have "t p = t (u, f (snd p))"
      using assms [of "snd p"] by simp
    then show ?thesis using True by simp
  next
    case False
    then show ?thesis using Cons.IH by simp
  qed
qed

lemma degree_sum_add_node: "degree_sum (add_node n r G) = degree_sum G"
proof (cases "n \<in> fst ` set G")
  case True
  then show ?thesis
    unfolding degree_sum_def add_node_def
    by (simp add: sum_map_entry_same)
next
  case False
  then show ?thesis
    by (simp add: degree_sum_def add_node_def)
qed

lemma degree_sum_add_nodes:
  "degree_sum (fold (\<lambda>risk. add_node (risk_id risk) risk) risks G) = degree_sum G"
  by (induction risks arbitrary: G) (simp_all add: degree_sum_add_node)

lemma degree_sum_set_adj:
  assumes "u \<in> fst ` set G" and "u \<noteq> v"
    and "edge_weight G u v = None" and "edge_weight G u u = None"
  shows "degree_sum (set_adj u v d G) = Suc (degree_sum G)"
proof -
  from assms(1) obtain e where e: "map_of G u = Some e"
    by (meson map_of_eq_None_iff not_Some_eq)
  have v: "v \<notin> fst ` set (adj e)"
    using assms(3) e by (simp add: edge_weight_def map_of_eq_None_iff)
  have u: "u \<notin> fst ` set (adj e)"
    using assms(4) e by (simp add: edge_weight_def map_of_eq_None_iff)
  define t :: "int \<times> 'a node_entry \<Rightarrow> nat" where
    "t = (\<lambda>p. length (adj (snd p)) + (if fst p \<in> fst ` set (adj (snd p)) then 1 else 0))"
  define f :: "'a node_entry \<Rightarrow> 'a node_entry" where
    "f = (\<lambda>e. e\<lparr>adj := AList.update v d (adj e)\<rparr>)"
  have old: "t (u, e) = length (adj e)"
    using u by (simp add: t_def)
  have "length (map fst (AList.update v d (adj e))) = Suc (length (adj e))"
    using v by (simp add: update_keys)
  then have len: "length (AList.update v d (adj e)) = Suc (length (adj e))"
    by simp
  have "u \<notin> fst ` set (AList.update v d (adj e))"
    using u assms(2) by (simp add: dom_update)
  then have new: "t (u, f e) = Suc (length (adj e))"
    using len by (simp add: t_def f_def)
  have "sum_list (map t (AList.map_entry u f G)) + t (u, e) = sum_list (map t G) + t (u, f e)"
    using e by (rule sum_map_entry)
  then have "sum_list (map t (AList.map_entry u f G)) = Suc (sum_list (map t G))"
    unfolding old new by simp
  then show ?thesis
    unfolding degree_sum_def set_adj_def t_def f_def .
qed

lemma degree_sum_add_edge:
  assumes "u \<in> fst ` set G" and "v \<in> fst ` set G" and "u \<noteq> v"
    and "edge_weight G u v = None" and "edge_weight G v u = None"
    and "edge_weight G u u = None" and "edge_weight G v v = None"
  shows "degree_sum (add_edge u v d G) = degree_sum G + 2"
proof -
  have ae: "add_edge u v d G = set_adj v u d (set_adj u v d G)"
    using assms(1,2) by (simp add: add_edge_def ensure_node_present)
  have 1: "degree_sum (set_adj u v d G) = Suc (degree_sum G)"
    using assms(1,3,4,6) by (rule degree_sum_set_adj)
  have k: "v \<in> fst ` set (set_adj u v d G)"
    using assms(2) by (simp add: keys_set_adj)
  have a: "edge_weight (set_adj u v d G) v u = None"
    using assms(3,5) by (simp add: edge_weight_set_adj)
  have b: "edge_weight (set_adj u v d G) v v = None"
    using assms(3,7) by (simp add: edge_weight_set_adj)
  have "v \<noteq> u" using assms(3) by simp
  from degree_sum_set_adj [OF k this a b]
  show ?thesis
    unfolding ae 1 by simp
qed


lemma nodes_fold_interactions:
  "(\<And>x. x \<in> set xs \<Longrightarrow> risk1_id x \<in> fst ` set G \<and> risk2_id x \<in> fst ` set G) \<Longrightarrow>
   nodes (fold add_interaction xs G) = nodes G"
proof (induction xs arbitrary: G)
  case Nil
  then show ?case by simp
next
  case (Cons x xs)
  have x: "risk1_id x \<in> fst ` set G" "risk2_id x \<in> fst ` set G"
    using Cons.prems [of x] by simp_all
  then have n: "nodes (add_interaction x G) = nodes G"
    by (simp add: add_interaction_def nodes_add_edge_present)
  have "fst ` set (add_interaction x G) = fst ` set G"
    using x by (auto simp: add_interaction_def keys_add_edge)
  then have "risk1_id y \<in> fst ` set (add_interaction x G)
             \<and> risk2_id y \<in> fst ` set (add_interaction x G)" if "y \<in> set xs" for y
    using Cons.prems [of y] that by simp
  from Cons.IH [OF this] show ?case
    using n by simp
qed

lemma filter_pair_empty:
  "filter (\<lambda>x. unordered_pair x = P) xs = [] \<longleftrightarrow> P \<notin> unordered_pair ` set xs"
  by (auto simp: filter_empty_conv)

lemma degree_sum_fold_interactions:
  assumes "distinct (map unordered_pair xs)"
    and "\<And>x. x \<in> set xs \<Longrightarrow>
           risk1_id x \<in> fst ` set G \<and> risk2_id x \<in> fst ` set G \<and> risk1_id x \<noteq> risk2_id x"
    and "\<And>a b. edge_weight G a b = None"
  shows "degree_sum (fold add_interaction xs G) = degree_sum G + 2 * length xs"
  using assms(1,2)
proof (induction xs rule: rev_induct)
  case Nil
  then show ?case by simp
next
  case (snoc x xs)
  define H where "H = fold add_interaction xs G"
  have d: "distinct (map unordered_pair xs)"
    using snoc.prems(1) by simp
  have new: "unordered_pair x \<notin> unordered_pair ` set xs"
    using snoc.prems(1) by simp
  have pre: "risk1_id y \<in> fst ` set G \<and> risk2_id y \<in> fst ` set G \<and> risk1_id y \<noteq> risk2_id y"
    if "y \<in> set xs" for y
    using snoc.prems(2) [of y] that by simp
  have IH: "degree_sum H = degree_sum G + 2 * length xs"
    unfolding H_def using d pre by (rule snoc.IH)
  have x: "risk1_id x \<in> fst ` set G" "risk2_id x \<in> fst ` set G" "risk1_id x \<noteq> risk2_id x"
    using snoc.prems(2) [of x] by simp_all
  have keys: "risk1_id x \<in> fst ` set H" "risk2_id x \<in> fst ` set H"
    using x by (simp_all add: H_def keys_fold_interactions)
  have absent: "edge_weight H a b = None" if "{a, b} \<notin> unordered_pair ` set xs" for a b
    using that assms(3) by (simp add: H_def edge_weight_fold filter_pair_empty)
  have loop_free: "{a, a} \<notin> unordered_pair ` set xs" for a
  proof
    assume "{a, a} \<in> unordered_pair ` set xs"
    then obtain y where y: "y \<in> set xs" and "{risk1_id y, risk2_id y} = {a}"
      by (auto simp: unordered_pair_def)
    then have "risk1_id y = risk2_id y"
      by (metis doubleton_eq_iff insert_absorb2)
    then show False
      using pre [OF y] by simp
  qed
  have p12: "{risk1_id x, risk2_id x} \<notin> unordered_pair ` set xs"
    using new by (simp add: unordered_pair_def)
  have p21: "{risk2_id x, risk1_id x} \<notin> unordered_pair ` set xs"
    using new by (simp add: unordered_pair_def insert_commute)
  have "degree_sum (add_interaction x H) = degree_sum H + 2"
    unfolding add_interaction_def
    using keys x(3) absent [OF p12] absent [OF p21] absent [OF loop_free] absent [OF loop_free]
    by (rule degree_sum_add_edge)
  then show ?case
    using IH by (simp add: H_def)
qed

lemma filter_same_key:
  "distinct (map f xs) \<Longrightarrow> x \<in> set xs \<Longrightarrow> filter (\<lambda>y. f y = f x) xs = [x]"
proof (induction xs)
  case Nil
  then show ?case by simp
next
  case (Cons y ys)
  show ?case
  proof (cases "x = y")
    case True
    have notin: "f y \<notin> set (map f ys)"
      using Cons.prems(1) by simp
    have "f z \<noteq> f x" if "z \<in> set ys" for z
    proof -
      have "f z \<in> set (map f ys)"
        using that by simp
      then show ?thesis
        using notin True by metis
    qed
    then have "filter (\<lambda>z. f z = f x) ys = []"
      by (simp add: filter_empty_conv)
    then show ?thesis using True by simp
  next
    case False
    then have "x \<in> set ys" using Cons.prems(2) by simp
    then have "f y \<noteq> f x"
      using Cons.prems(1) by auto
    then show ?thesis
      using Cons.IH Cons.prems(1) \<open>x \<in> set ys\<close> by simp
  qed
qed

lemma edge_weight_build:
  "edge_weight (build_risk_network risks interactions) a b =
     (if filter (\<lambda>x. unordered_pair x = {a, b}) interactions = [] then None
      else Some (interaction_score (last (filter (\<lambda>x. unordered_pair x = {a, b}) interactions))))"
  unfolding build_risk_network_def edge_weight_fold edge_weight_add_nodes
  by (simp add: edge_weight_def)

text \<open>
  C3. For risks with distinct identifiers and interactions on distinct unordered pairs,
  each between two different risks of the list, the graph built has one node per risk and
  one edge per interaction, and the weight of each interaction's edge, looked up from
  either end, is the interaction's score. (The lookup is symmetric for every pair of
  nodes.)
\<close>

theorem build_risk_network_counts:
  assumes "distinct (map risk_id risks)"
    and "distinct (map unordered_pair interactions)"
    and "\<forall>i\<in>set interactions.
           risk1_id i \<in> risk_id ` set risks \<and> risk2_id i \<in> risk_id ` set risks
           \<and> risk1_id i \<noteq> risk2_id i"
  shows "number_of_nodes (build_risk_network risks interactions) = length risks
         \<and> number_of_edges (build_risk_network risks interactions) = length interactions
         \<and> (\<forall>i\<in>set interactions.
               edge_weight (build_risk_network risks interactions) (risk1_id i) (risk2_id i)
                 = Some (interaction_score i)
               \<and> edge_weight (build_risk_network risks interactions) (risk2_id i) (risk1_id i)
                 = Some (interaction_score i))
         \<and> (\<forall>a b. edge_weight (build_risk_network risks interactions) a b
                  = edge_weight (build_risk_network risks interactions) b a)"
proof -
  define G0 :: "'a graph" where "G0 = fold (\<lambda>risk. add_node (risk_id risk) risk) risks []"
  have b: "build_risk_network risks interactions = fold add_interaction interactions G0"
    by (simp add: build_risk_network_def G0_def)
  have keys0: "fst ` set G0 = risk_id ` set risks"
    by (simp add: G0_def keys_add_nodes)
  have nodes0: "nodes G0 = map risk_id risks"
    using nodes_add_nodes [of "[]" risks] assms(1) by (simp add: G0_def nodes_def)
  have ew0: "edge_weight G0 a b = None" for a b
    unfolding G0_def edge_weight_add_nodes by (simp add: edge_weight_def)
  have "degree_sum G0 = degree_sum ([] :: 'a graph)"
    unfolding G0_def by (rule degree_sum_add_nodes)
  then have ds0: "degree_sum G0 = 0"
    by (simp add: degree_sum_def)
  have ends: "risk1_id x \<in> fst ` set G0 \<and> risk2_id x \<in> fst ` set G0 \<and> risk1_id x \<noteq> risk2_id x"
    if "x \<in> set interactions" for x
    using assms(3) that keys0 by simp
  have "nodes (fold add_interaction interactions G0) = nodes G0"
    using ends by (intro nodes_fold_interactions) simp
  then have n: "number_of_nodes (build_risk_network risks interactions) = length risks"
    using nodes0 unfolding b number_of_nodes_def nodes_def
    by (metis length_map)
  have "degree_sum (fold add_interaction interactions G0) = degree_sum G0 + 2 * length interactions"
    using assms(2) ends ew0 by (rule degree_sum_fold_interactions)
  then have m: "number_of_edges (build_risk_network risks interactions) = length interactions"
    unfolding b number_of_edges_def ds0 by simp
  have w: "edge_weight (build_risk_network risks interactions) (risk1_id i) (risk2_id i)
             = Some (interaction_score i)
           \<and> edge_weight (build_risk_network risks interactions) (risk2_id i) (risk1_id i)
             = Some (interaction_score i)" if "i \<in> set interactions" for i
  proof -
    have f: "filter (\<lambda>x. unordered_pair x = unordered_pair i) interactions = [i]"
      using assms(2) that by (rule filter_same_key)
    have 1: "{risk1_id i, risk2_id i} = unordered_pair i"
      by (simp add: unordered_pair_def)
    have 2: "{risk2_id i, risk1_id i} = unordered_pair i"
      by (simp add: unordered_pair_def insert_commute)
    show ?thesis
      unfolding edge_weight_build 1 2 f by simp
  qed
  have s: "edge_weight (build_risk_network risks interactions) a b
           = edge_weight (build_risk_network risks interactions) b a" for a b
    unfolding edge_weight_build by (simp add: insert_commute)
  show ?thesis
    using n m w s by blast
qed


lemma sample_network_inputs:
  "distinct (map risk_id [sample_risk 1, sample_risk 2, sample_risk 3, sample_risk 4])
   \<and> distinct (map unordered_pair
        [sample_interaction 1 2 0.7, sample_interaction 1 3 0.4, sample_interaction 2 3 0.6,
         sample_interaction 2 4 0.8, sample_interaction 3 4 0.5])
   \<and> (\<forall>i\<in>set [sample_interaction 1 2 0.7, sample_interaction 1 3 0.4,
                 sample_interaction 2 3 0.6, sample_interaction 2 4 0.8,
                 sample_interaction 3 4 0.5].
         risk1_id i \<in> risk_id ` set [sample_risk 1, sample_risk 2, sample_risk 3, sample_risk 4]
         \<and> risk2_id i \<in> risk_id ` set [sample_risk 1, sample_risk 2, sample_risk 3, sample_risk 4]
         \<and> risk1_id i \<noteq> risk2_id i)"
  by (simp add: sample_risk_def sample_interaction_def unordered_pair_def doubleton_eq_iff)

theorem build_risk_network_counts_witness:
  "distinct (map risk_id [sample_risk 1, sample_risk 2, sample_risk 3, sample_risk 4])
   \<and> distinct (map unordered_pair
        [sample_interaction 1 2 0.7, sample_interaction 1 3 0.4, sample_interaction 2 3 0.6,
         sample_interaction 2 4 0.8, sample_interaction 3 4 0.5])
   \<and> number_of_nodes sample_network = 4
   \<and> number_of_edges sample_network = 5
   \<and> edge_weight sample_network 2 4 = Some 0.8
   \<and> edge_weight sample_network 4 2 = Some 0.8"
proof -
  define rs where "rs = [sample_risk 1, sample_risk 2, sample_risk 3, sample_risk 4]"
  define xs where "xs = [sample_interaction 1 2 0.7, sample_interaction 1 3 0.4,
      sample_interaction 2 3 0.6, sample_interaction 2 4 0.8, sample_interaction 3 4 0.5]"
  have 1: "distinct (map risk_id rs)" and 2: "distinct (map unordered_pair xs)"
    and 3: "\<forall>i\<in>set xs. risk1_id i \<in> risk_id ` set rs \<and> risk2_id i \<in> risk_id ` set rs
            \<and> risk1_id i \<noteq> risk2_id i"
    using sample_network_inputs unfolding rs_def xs_def by blast+
  have g: "sample_network = build_risk_network rs xs"
    by (simp add: sample_network_def rs_def xs_def)
  have all: "number_of_nodes sample_network = length rs
         \<and> number_of_edges sample_network = length xs
         \<and> (\<forall>i\<in>set xs.
               edge_weight sample_network (risk1_id i) (risk2_id i) = Some (interaction_score i)
               \<and> edge_weight sample_network (risk2_id i) (risk1_id i)
                 = Some (interaction_score i))"
    using build_risk_network_counts [OF 1 2 3] unfolding g by blast
  have "sample_interaction 2 4 0.8 \<in> set xs"
    by (simp add: xs_def)
  with all have "edge_weight sample_network (risk1_id (sample_interaction 2 4 0.8))
        (risk2_id (sample_interaction 2 4 0.8))
          = Some (interaction_score (sample_interaction 2 4 0.8))
      \<and> edge_weight sample_network (risk2_id (sample_interaction 2 4 0.8))
        (risk1_id (sample_interaction 2 4 0.8))
          = Some (interaction_score (sample_interaction 2 4 0.8))"
    by blast
  then have w: "edge_weight sample_network 2 4 = Some 0.8
      \<and> edge_weight sample_network 4 2 = Some 0.8"
    by (simp add: sample_interaction_def)
  have n: "number_of_nodes sample_network = 4" and m: "number_of_edges sample_network = 5"
    using all by (simp_all add: rs_def xs_def)
  show ?thesis
    using 1 2 n m w unfolding rs_def xs_def by (intro conjI) simp_all
qed

text \<open>
  C5 as stated fails: no input is rejected. With the single risk 1 and the interactions
  \<open>1 - 2\<close> of score 0.3 and \<open>2 - 1\<close> of score 0.9, which reference an identifier of no risk
  and repeat an unordered pair, the graph is built: node 2 is added with no attributes,
  and the one edge carries the second score.
\<close>

theorem build_risk_network_accepts_bad_input:
  "graph_integrity_violated [sample_risk 1]
       [sample_interaction 1 2 0.3, sample_interaction 2 1 0.9]
   \<and> nodes (build_risk_network [sample_risk 1]
                [sample_interaction 1 2 0.3, sample_interaction 2 1 0.9]) = [1, 2]
   \<and> map_option attrs (map_of (build_risk_network [sample_risk 1]
                [sample_interaction 1 2 0.3, sample_interaction 2 1 0.9]) 2) = Some None
   \<and> edge_weight (build_risk_network [sample_risk 1]
                [sample_interaction 1 2 0.3, sample_interaction 2 1 0.9]) 1 2 = Some 0.9
   \<and> number_of_edges (build_risk_network [sample_risk 1]
                [sample_interaction 1 2 0.3, sample_interaction 2 1 0.9]) = 1"
  by (simp add: graph_integrity_violated_def build_risk_network_def add_interaction_def
      add_node_def add_edge_def ensure_node_def set_adj_def sample_risk_def
      sample_interaction_def nodes_def edge_weight_def number_of_edges_def degree_sum_def
      unordered_pair_def insert_commute)

text \<open>
  C5 (as amended). \<open>build_risk_network\<close> checks nothing and always returns a graph: its
  nodes are the identifiers of the risks together with every identifier an interaction
  references, and the weight between two nodes is the score of the last interaction on
  that unordered pair (none when no interaction is on it), so that a repeated pair
  overwrites the earlier score.
\<close>

theorem build_risk_network_accepts_all:
  "set (nodes (build_risk_network risks interactions))
     = risk_id ` set risks \<union> (\<Union>x\<in>set interactions. {risk1_id x, risk2_id x})
   \<and> edge_weight (build_risk_network risks interactions) a b =
       (if filter (\<lambda>x. unordered_pair x = {a, b}) interactions = [] then None
        else Some (interaction_score
                     (last (filter (\<lambda>x. unordered_pair x = {a, b}) interactions))))"
proof -
  have "set (nodes (build_risk_network risks interactions))
          = fst ` set (build_risk_network risks interactions)"
    by (simp add: nodes_def)
  also have "\<dots> = risk_id ` set risks \<union> (\<Union>x\<in>set interactions. {risk1_id x, risk2_id x})"
    unfolding build_risk_network_def keys_fold_interactions keys_add_nodes by simp
  finally show ?thesis
    using edge_weight_build [of risks interactions a b] by simp
qed

section \<open>Properties of the cascade\<close>

lemma set_update_subset: "set (AList.update k v al) \<subseteq> insert (k, v) (set al)"
  by (induction al) auto

lemma seed_fold_set:
  "set (fold (\<lambda>risk. AList.update risk [1]) rs acc) \<subseteq> set acc \<union> (\<lambda>r. (r, [1])) ` set rs"
proof (induction rs arbitrary: acc)
  case Nil
  then show ?case by simp
next
  case (Cons r rs)
  have "set (fold (\<lambda>risk. AList.update risk [1]) rs (AList.update r [1] acc))
        \<subseteq> set (AList.update r [1] acc) \<union> (\<lambda>r. (r, [1])) ` set rs"
    by (rule Cons.IH)
  also have "\<dots> \<subseteq> insert (r, [1]) (set acc) \<union> (\<lambda>r. (r, [1])) ` set rs"
    using set_update_subset [of r "[1]" acc] by blast
  finally show ?case by auto
qed

lemma seed_fold_keys:
  "fst ` set (fold (\<lambda>risk. AList.update risk v) rs acc) = fst ` set acc \<union> set rs"
  by (induction rs arbitrary: acc) (auto simp: dom_update)

lemma seed_progression_ok:
  assumes "initial_risks \<noteq> []"
  shows "tracked_ok (set initial_risks) threshold 1 (seed_progression initial_risks)"
proof -
  let ?cp = "seed_progression initial_risks :: 'a progression"
  have keys: "fst ` set ?cp = set initial_risks"
    by (simp add: seed_progression_def seed_fold_keys)
  then have ne: "?cp \<noteq> []"
    using assms by auto
  have "entry_ok (set initial_risks) threshold 1 e" if "e \<in> set ?cp" for e
  proof -
    have "e \<in> (\<lambda>r. (r, [1])) ` set initial_risks"
      using that seed_fold_set [of initial_risks "[]"] by (auto simp: seed_progression_def)
    then show ?thesis
      by (auto simp: entry_ok_def)
  qed
  then show ?thesis
    using keys ne by (simp add: tracked_ok_def list_all_iff)
qed

lemma new_activations_fold:
  "(n, a) \<in> set (fold (\<lambda>node activations.
             if node \<notin> fst ` set cp
             then (if threshold < f node then AList.update node (f node) activations
                   else activations)
             else activations) ns acc)
   \<Longrightarrow> (n, a) \<in> set acc \<or> (n \<notin> fst ` set cp \<and> threshold < a)"
proof (induction ns arbitrary: acc)
  case Nil
  then show ?case by simp
next
  case (Cons x ns)
  let ?g = "\<lambda>node activations.
             if node \<notin> fst ` set cp
             then (if threshold < f node then AList.update node (f node) activations
                   else activations)
             else activations"
  show ?case
  proof (cases "x \<notin> fst ` set cp \<and> threshold < f x")
    case True
    then have "fold ?g (x # ns) acc = fold ?g ns (AList.update x (f x) acc)"
      by simp
    then have "(n, a) \<in> set (fold ?g ns (AList.update x (f x) acc))"
      using Cons.prems by simp
    then have "(n, a) \<in> set (AList.update x (f x) acc) \<or> (n \<notin> fst ` set cp \<and> threshold < a)"
      by (rule Cons.IH)
    then show ?thesis
      using True set_update_subset [of x "f x" acc] by blast
  next
    case False
    then have "fold ?g (x # ns) acc = fold ?g ns acc"
      by auto
    then have "(n, a) \<in> set (fold ?g ns acc)"
      using Cons.prems by simp
    then show ?thesis
      by (rule Cons.IH)
  qed
qed

lemma new_activations_fresh:
  "(n, a) \<in> set (new_activations G cp threshold) \<Longrightarrow> n \<notin> fst ` set cp \<and> threshold < a"
  unfolding new_activations_def
  using new_activations_fold [of n a cp threshold "neighbor_influence G cp" "nodes G" "[]"]
  by simp


lemma backfill_ok:
  assumes "tracked_ok S threshold L cp" and "0 < L"
    and "list_all (\<lambda>p. fst p \<notin> S \<and> threshold < snd p) activations"
  shows "\<exists>cp'. backfill activations cp = Inr cp' \<and> tracked_ok S threshold L cp'"
  using assms
proof (induction activations arbitrary: cp)
  case Nil
  then show ?case by simp
next
  case (Cons p rest)
  obtain node activation where p: "p = (node, activation)"
    by (cases p)
  from Cons.prems(1) obtain k first others where cp: "cp = (k, first) # others"
    by (cases cp) (auto simp: tracked_ok_def)
  have "entry_ok S threshold L (k, first)"
    using Cons.prems(1) by (simp add: cp tracked_ok_def)
  then have len: "length first = L"
    by (simp add: entry_ok_def)
  define new where "new = replicate (L - 1) 0 @ [activation]"
  have fresh: "node \<notin> S" and above: "threshold < activation"
    using Cons.prems(3) by (simp_all add: p)
  have new_len: "length new = L"
    using \<open>0 < L\<close> by (simp add: new_def)
  have "new = replicate (L - 1) 0 @ replicate (L - (L - 1)) activation"
    using \<open>0 < L\<close> by (cases L) (simp_all add: new_def)
  moreover have "L - 1 < L"
    using \<open>0 < L\<close> by simp
  ultimately have "\<exists>j a. j < L \<and> threshold < a \<and> new = replicate j 0 @ replicate (L - j) a"
    using above by blast
  then have new_ok: "entry_ok S threshold L (node, new)"
    using fresh new_len by (simp add: entry_ok_def)
  have old_ok: "entry_ok S threshold L e" if "e \<in> set cp" for e
    using Cons.prems(1) that by (simp add: tracked_ok_def list_all_iff)
  have "list_all (entry_ok S threshold L) (AList.update node new cp)"
    unfolding list_all_iff
  proof
    fix e
    assume "e \<in> set (AList.update node new cp)"
    then have "e = (node, new) \<or> e \<in> set cp"
      using set_update_subset [of node new cp] by blast
    then show "entry_ok S threshold L e"
      using new_ok old_ok by blast
  qed
  moreover have "S \<subseteq> fst ` set cp"
    using Cons.prems(1) by (simp add: tracked_ok_def)
  then have "S \<subseteq> fst ` set (AList.update node new cp)"
    unfolding dom_update by blast
  ultimately have ok: "tracked_ok S threshold L (AList.update node new cp)"
    by (simp add: tracked_ok_def)
  have "list_all (\<lambda>p. fst p \<notin> S \<and> threshold < snd p) rest"
    using Cons.prems(3) by simp
  from Cons.IH [OF ok \<open>0 < L\<close> this]
  obtain cp' where r: "backfill rest (AList.update node new cp) = Inr cp'"
      and ok': "tracked_ok S threshold L cp'"
    by blast
  have "backfill (p # rest) cp
        = backfill rest (AList.update node (replicate (length first - 1) 0 @ [activation]) cp)"
    unfolding p cp by simp
  then have "backfill (p # rest) cp = Inr cp'"
    using r by (simp only: len new_def)
  then show ?case
    using ok' by blast
qed

lemma hold_last_entry:
  assumes "entry_ok S threshold L e" and "0 < L"
  shows "entry_ok S threshold (Suc L) (fst e, snd e @ [last (snd e)])"
proof (cases "fst e \<in> S")
  case True
  then have "snd e = replicate L 1"
    using assms(1) by (simp add: entry_ok_def)
  then have "snd e @ [last (snd e)] = replicate (Suc L) 1"
    using \<open>0 < L\<close> by (simp add: replicate_append_same)
  then show ?thesis
    using True by (simp add: entry_ok_def)
next
  case False
  then obtain j a where j: "j < L" and a: "threshold < a"
      and e: "snd e = replicate j 0 @ replicate (L - j) a"
    using assms(1) by (auto simp: entry_ok_def)
  have "last (snd e) = a"
    using j by (simp add: e)
  then have "snd e @ [last (snd e)] = replicate j 0 @ replicate (Suc L - j) a"
    using j by (simp add: e Suc_diff_le replicate_append_same)
  moreover have "j < Suc L"
    using j by simp
  ultimately have "\<exists>j a. j < Suc L \<and> threshold < a
      \<and> snd e @ [last (snd e)] = replicate j 0 @ replicate (Suc L - j) a"
    using a by blast
  moreover have "length (snd e @ [last (snd e)]) = Suc L"
    using assms(1) by (simp add: entry_ok_def)
  ultimately show ?thesis
    using False by (simp add: entry_ok_def)
qed

lemma hold_last_ok:
  assumes "tracked_ok S threshold L cp" and "0 < L"
  shows "tracked_ok S threshold (Suc L) (hold_last cp)"
proof -
  have "hold_last cp = map (\<lambda>e. (fst e, snd e @ [last (snd e)])) cp"
    by (simp add: hold_last_def case_prod_beta)
  moreover have "fst ` set (map (\<lambda>e. (fst e, snd e @ [last (snd e)])) cp) = fst ` set cp"
    by force
  moreover have "list_all (entry_ok S threshold (Suc L))
      (map (\<lambda>e. (fst e, snd e @ [last (snd e)])) cp)"
    using assms hold_last_entry [OF _ \<open>0 < L\<close>, of S threshold]
    by (simp add: tracked_ok_def list_all_iff)
  moreover have "cp \<noteq> []" and "S \<subseteq> fst ` set cp"
    using assms(1) by (simp_all add: tracked_ok_def)
  ultimately show ?thesis
    by (simp add: tracked_ok_def)
qed

lemma cascade_loop_ok:
  assumes "tracked_ok S threshold L cp" and "0 < L"
  shows "\<exists>cp'. cascade_loop k G threshold cp = Inr cp'
           \<and> tracked_ok S threshold (L + completed_steps k G threshold cp) cp'
           \<and> completed_steps k G threshold cp \<le> k
           \<and> (completed_steps k G threshold cp < k \<longrightarrow> new_activations G cp' threshold = [])"
  using assms
proof (induction k arbitrary: cp L)
  case 0
  then show ?case by simp
next
  case (Suc k)
  define activations where "activations = new_activations G cp threshold"
  have loop: "cascade_loop (Suc k) G threshold cp =
      (if activations = [] then Inr cp
       else (case backfill activations cp of
               Inl e \<Rightarrow> Inl e
             | Inr cp1 \<Rightarrow> cascade_loop k G threshold (hold_last cp1)))"
    by (simp add: activations_def Let_def)
  have count: "completed_steps (Suc k) G threshold cp =
      (if activations = [] then 0
       else (case backfill activations cp of
               Inl e \<Rightarrow> 0
             | Inr cp1 \<Rightarrow> Suc (completed_steps k G threshold (hold_last cp1))))"
    by (simp add: activations_def Let_def)
  show ?case
  proof (cases "activations = []")
    case True
    have "cascade_loop (Suc k) G threshold cp = Inr cp"
      and "completed_steps (Suc k) G threshold cp = 0"
      unfolding loop count using True by simp_all
    moreover have "new_activations G cp threshold = []"
      using True by (simp only: activations_def)
    ultimately show ?thesis
      using Suc.prems(1) by simp
  next
    case False
    have keys: "S \<subseteq> fst ` set cp"
      using Suc.prems(1) by (simp add: tracked_ok_def)
    have "fst p \<notin> S \<and> threshold < snd p" if "p \<in> set activations" for p
    proof -
      have "(fst p, snd p) \<in> set (new_activations G cp threshold)"
        using that by (simp add: activations_def)
      then have "fst p \<notin> fst ` set cp \<and> threshold < snd p"
        by (rule new_activations_fresh)
      then show ?thesis
        using keys by blast
    qed
    then have "list_all (\<lambda>p. fst p \<notin> S \<and> threshold < snd p) activations"
      by (simp add: list_all_iff)
    from backfill_ok [OF Suc.prems(1) Suc.prems(2) this]
    obtain cp1 where b: "backfill activations cp = Inr cp1"
        and ok1: "tracked_ok S threshold L cp1"
      by blast
    have ok2: "tracked_ok S threshold (Suc L) (hold_last cp1)"
      by (rule hold_last_ok [OF ok1 Suc.prems(2)])
    have "0 < Suc L" by simp
    from Suc.IH [OF ok2 this] obtain cp' where
        r: "cascade_loop k G threshold (hold_last cp1) = Inr cp'"
        and ok': "tracked_ok S threshold (Suc L + completed_steps k G threshold (hold_last cp1)) cp'"
        and le: "completed_steps k G threshold (hold_last cp1) \<le> k"
        and stable: "completed_steps k G threshold (hold_last cp1) < k
                     \<longrightarrow> new_activations G cp' threshold = []"
      by blast
    have c: "completed_steps (Suc k) G threshold cp
             = Suc (completed_steps k G threshold (hold_last cp1))"
      unfolding count using False b by simp
    have l: "cascade_loop (Suc k) G threshold cp = Inr cp'"
      unfolding loop using False b r by simp
    show ?thesis
      unfolding c l using ok' le stable by simp
  qed
qed


lemma chain_network_eq:
  "chain_network =
     [(1, \<lparr>attrs = Some (sample_risk 1), adj = [(2, \<lparr>weight = 9/10, edge_type = ''Strong''\<rparr>)]\<rparr>),
      (2, \<lparr>attrs = Some (sample_risk 2),
           adj = [(1, \<lparr>weight = 9/10, edge_type = ''Strong''\<rparr>),
                  (3, \<lparr>weight = 9/10, edge_type = ''Strong''\<rparr>)]\<rparr>),
      (3, \<lparr>attrs = Some (sample_risk 3), adj = [(2, \<lparr>weight = 9/10, edge_type = ''Strong''\<rparr>)]\<rparr>)]"
  by (simp add: chain_network_def build_risk_network_def add_interaction_def add_node_def add_edge_def
      ensure_node_def set_adj_def sample_risk_def sample_interaction_def
      determine_interaction_type_def)

lemma chain_cascade:
  "analyze_risk_cascades chain_network [1] (1/2) 10
     = Inr [(1, [1, 1, 1]), (2, [9/10, 9/10, 9/10]), (3, [0, 81/100, 81/100])]"
  unfolding chain_network_eq
  by (simp add: analyze_risk_cascades_def seed_progression_def new_activations_def
      neighbor_influence_def nodes_def adjacency_def hold_last_def eval_nat_numeral)

lemma chain_steps:
  "steps_simulated chain_network [1] (1/2) 10 = 2"
  unfolding chain_network_eq
  by (simp add: steps_simulated_def seed_progression_def new_activations_def
      neighbor_influence_def nodes_def adjacency_def hold_last_def eval_nat_numeral)


lemma cascade_loop_empty: "cascade_loop k G threshold [] = Inr cp \<Longrightarrow> cp = []"
proof (cases k)
  case 0
  then show "cascade_loop k G threshold [] = Inr cp \<Longrightarrow> cp = []" by simp
next
  case (Suc k')
  assume r: "cascade_loop k G threshold [] = Inr cp"
  show "cp = []"
  proof (cases "new_activations G [] threshold")
    case Nil
    then show ?thesis using r Suc by simp
  next
    case (Cons p ps)
    obtain n a where "p = (n, a)" by (cases p)
    then have "backfill (new_activations G [] threshold) [] = Inl StopIteration"
      using Cons by simp
    then show ?thesis using r Suc Cons by simp
  qed
qed

lemma analyze_risk_cascades_ok:
  assumes "initial_risks \<noteq> []"
  shows "\<exists>cp. analyze_risk_cascades G initial_risks threshold max_steps = Inr cp
           \<and> tracked_ok (set initial_risks) threshold
                (Suc (steps_simulated G initial_risks threshold max_steps)) cp
           \<and> steps_simulated G initial_risks threshold max_steps \<le> nat max_steps
           \<and> (steps_simulated G initial_risks threshold max_steps < nat max_steps
                \<longrightarrow> new_activations G cp threshold = [])"
proof -
  have "tracked_ok (set initial_risks) threshold 1 (seed_progression initial_risks)"
    by (rule seed_progression_ok [OF assms])
  from cascade_loop_ok [OF this, of "nat max_steps" G]
  show ?thesis
    by (simp add: analyze_risk_cascades_def steps_simulated_def)
qed

text \<open>
  C1 (as amended). For every graph, non-empty seed list, threshold and step budget,
  \<open>analyze_risk_cascades\<close> returns; the number of propagation steps it completes is at most
  \<open>max_steps\<close> (and none when \<open>max_steps\<close> is negative); when it is smaller, the loop stopped at a step that produced no new
  activation, so the returned state admits none; and every returned list, of a seed or of
  a node activated later and backfilled with zeros, has the same length, one more than the
  number of completed steps (the entry of step 0 and one entry per completed step).
\<close>

theorem analyze_risk_cascades_uniform_length:
  assumes "initial_risks \<noteq> []"
  shows "\<exists>cp. analyze_risk_cascades G initial_risks threshold max_steps = Inr cp
           \<and> steps_simulated G initial_risks threshold max_steps \<le> nat max_steps
           \<and> (steps_simulated G initial_risks threshold max_steps < nat max_steps
                \<longrightarrow> new_activations G cp threshold = [])
           \<and> (\<forall>e\<in>set cp.
                 length (snd e) = Suc (steps_simulated G initial_risks threshold max_steps))"
proof -
  from analyze_risk_cascades_ok [OF assms, of G threshold max_steps]
  obtain cp where r: "analyze_risk_cascades G initial_risks threshold max_steps = Inr cp"
    and ok: "tracked_ok (set initial_risks) threshold
                (Suc (steps_simulated G initial_risks threshold max_steps)) cp"
    and le: "steps_simulated G initial_risks threshold max_steps \<le> nat max_steps"
    and st: "steps_simulated G initial_risks threshold max_steps < nat max_steps
                \<longrightarrow> new_activations G cp threshold = []"
    by blast
  have "\<forall>e\<in>set cp. length (snd e) = Suc (steps_simulated G initial_risks threshold max_steps)"
    using ok by (simp add: tracked_ok_def list_all_iff entry_ok_def)
  with r le st show ?thesis by blast
qed

theorem analyze_risk_cascades_uniform_length_witness:
  "[1] \<noteq> ([] :: int list)
   \<and> analyze_risk_cascades chain_network [1] (1/2) 10
       = Inr [(1, [1, 1, 1]), (2, [9/10, 9/10, 9/10]), (3, [0, 81/100, 81/100])]
   \<and> steps_simulated chain_network [1] (1/2) 10 = 2
   \<and> new_activations chain_network
        [(1, [1, 1, 1]), (2, [9/10, 9/10, 9/10]), (3, [0, 81/100, 81/100])] (1/2) = []"
proof -
  have ne: "[1] \<noteq> ([] :: int list)" by simp
  from analyze_risk_cascades_uniform_length [OF ne, of chain_network "1/2" 10]
  obtain cp where "analyze_risk_cascades chain_network [1] (1/2) 10 = Inr cp"
    and "steps_simulated chain_network [1] (1/2) 10 < nat 10
         \<longrightarrow> new_activations chain_network cp (1/2) = []"
    by blast
  then show ?thesis
    by (simp add: chain_cascade chain_steps)
qed

text \<open>
  C1 as stated fails. On the chain \<open>1 - 2 - 3\<close> seeded at node 1, node 2 is activated in the
  first step and node 3 in the second, backfilled with one zero; two steps complete, and
  all three lists have three entries: no two lengths differ, and no length equals the
  number of completed steps.
\<close>

theorem cascade_lengths_not_asymmetric:
  "analyze_risk_cascades chain_network [1] (1/2) 10
     = Inr [(1, [1, 1, 1]), (2, [9/10, 9/10, 9/10]), (3, [0, 81/100, 81/100])]
   \<and> steps_simulated chain_network [1] (1/2) 10 = 2
   \<and> \<not> (\<exists>cp. analyze_risk_cascades chain_network [1] (1/2) 10 = Inr cp
           \<and> (\<exists>e\<in>set cp. \<exists>e'\<in>set cp. length (snd e) \<noteq> length (snd e')))
   \<and> \<not> (\<exists>cp. analyze_risk_cascades chain_network [1] (1/2) 10 = Inr cp
           \<and> (\<exists>e\<in>set cp. length (snd e) = steps_simulated chain_network [1] (1/2) 10))"
  by (simp add: chain_cascade chain_steps)


lemma entry_ok_indexwise:
  assumes "entry_ok S threshold L e" and "0 < L"
  shows "\<exists>j<length (snd e).
           (\<forall>i<j. snd e ! i = 0)
           \<and> (\<forall>i. j \<le> i \<and> i < length (snd e) \<longrightarrow> snd e ! i = snd e ! j)
           \<and> (fst e \<notin> S \<longrightarrow> threshold < snd e ! j)
           \<and> (fst e \<in> S \<longrightarrow> j = 0 \<and> snd e ! 0 = 1)"
proof (cases "fst e \<in> S")
  case True
  then have e: "snd e = replicate L 1"
    using assms(1) by (simp add: entry_ok_def)
  have "0 < length (snd e)"
    using assms(2) by (simp add: e)
  moreover have "\<forall>i. 0 \<le> i \<and> i < length (snd e) \<longrightarrow> snd e ! i = snd e ! 0"
    by (simp add: e)
  moreover have "snd e ! 0 = 1"
    using assms(2) by (simp add: e)
  ultimately show ?thesis
    using True by (intro exI [of _ 0]) simp
next
  case False
  then obtain j a where j: "j < L" and a: "threshold < a"
      and e: "snd e = replicate j 0 @ replicate (L - j) a"
    using assms(1) by (auto simp: entry_ok_def)
  have len: "length (snd e) = L"
    using j by (simp add: e)
  have zeros: "\<forall>i<j. snd e ! i = 0"
    by (simp add: e nth_append)
  have held: "\<forall>i. j \<le> i \<and> i < length (snd e) \<longrightarrow> snd e ! i = a"
  proof (intro allI impI)
    fix i
    assume i: "j \<le> i \<and> i < length (snd e)"
    then have "i - j < L - j"
      using len by linarith
    then have "replicate (L - j) a ! (i - j) = a"
      by (rule nth_replicate)
    then show "snd e ! i = a"
      using i by (simp add: e nth_append)
  qed
  then have at: "snd e ! j = a"
    using j len by simp
  show ?thesis
    using False j zeros held a at len by (intro exI [of _ j]) simp
qed

lemma systemic_neighbor_influence_eq:
  "systemic_neighbor_influence risk_network cp node = neighbor_influence risk_network cp node"
  by (simp add: systemic_neighbor_influence_def neighbor_influence_def)

lemma systemic_new_activations_eq:
  "systemic_new_activations risk_network cp threshold = new_activations risk_network cp threshold"
  unfolding systemic_new_activations_def new_activations_def systemic_neighbor_influence_eq
  by (rule refl)

lemma systemic_backfill_eq: "systemic_backfill activations cp = backfill activations cp"
proof (induction activations arbitrary: cp)
  case Nil
  then show ?case by simp
next
  case (Cons p rest)
  obtain node activation where p: "p = (node, activation)" by (cases p)
  show ?case
    by (cases cp) (simp_all add: p Cons.IH split: prod.splits)
qed

lemma systemic_hold_last_eq: "systemic_hold_last cp = hold_last cp"
  by (simp add: systemic_hold_last_def hold_last_def)

lemma systemic_cascade_loop_eq:
  "systemic_cascade_loop k risk_network threshold cp = cascade_loop k risk_network threshold cp"
proof (induction k arbitrary: cp)
  case 0
  then show ?case by simp
next
  case (Suc k)
  show ?case
    by (simp add: systemic_new_activations_eq systemic_backfill_eq systemic_hold_last_eq
        Suc.IH Let_def split: sum.splits)
qed

lemma systemic_cascades_eq:
  "systemic_analyze_risk_cascades risk_network initial_risks threshold max_steps
     = analyze_risk_cascades risk_network initial_risks threshold max_steps"
  by (simp add: systemic_analyze_risk_cascades_def analyze_risk_cascades_def
      seed_progression_def systemic_cascade_loop_eq)

lemma cascade_result_ok:
  assumes "analyze_risk_cascades G initial_risks threshold max_steps = Inr cp"
  shows "set initial_risks \<subseteq> fst ` set cp
         \<and> list_all (entry_ok (set initial_risks) threshold
              (Suc (steps_simulated G initial_risks threshold max_steps))) cp"
proof (cases "initial_risks = []")
  case True
  then have "cascade_loop (nat max_steps) G threshold [] = Inr cp"
    using assms by (simp add: analyze_risk_cascades_def seed_progression_def)
  then have "cp = []"
    by (rule cascade_loop_empty)
  then show ?thesis
    using True by simp
next
  case False
  from analyze_risk_cascades_ok [OF False, of G threshold max_steps] assms
  have "tracked_ok (set initial_risks) threshold
          (Suc (steps_simulated G initial_risks threshold max_steps)) cp"
    by simp
  then show ?thesis
    by (simp add: tracked_ok_def)
qed

lemma seed_lookup:
  assumes "set initial_risks \<subseteq> fst ` set cp"
    and "list_all (entry_ok (set initial_risks) threshold (Suc L)) cp"
    and "n \<in> set initial_risks"
  shows "\<exists>xs. map_of cp n = Some xs \<and> xs \<noteq> [] \<and> xs ! 0 = 1"
proof -
  have "n \<in> fst ` set cp"
    using assms(1,3) by blast
  then obtain xs where m: "map_of cp n = Some xs"
    by (meson map_of_eq_None_iff not_Some_eq)
  then have "(n, xs) \<in> set cp"
    by (rule map_of_SomeD)
  then have "entry_ok (set initial_risks) threshold (Suc L) (n, xs)"
    using assms(2) by (simp add: list_all_iff)
  then have "xs = replicate (Suc L) 1"
    using assms(3) by (simp add: entry_ok_def)
  then have "xs \<noteq> [] \<and> xs ! 0 = 1"
    by simp
  then show ?thesis
    using m by blast
qed

text \<open>
  C8. When the seed list is not empty, \<open>analyze_risk_cascades\<close> (either module's) returns a
  mapping. In every mapping returned, every seed is a key, and the list looked up for a
  seed starts with 1 at step 0. Every list has one entry for step 0 and one per completed
  step, and has an activation entry \<open>j\<close>: the entries before it are the backfilled zeros,
  and every entry from \<open>j\<close> on equals the entry at \<open>j\<close>, so the activation value is held
  and never computed again. For a seed \<open>j\<close> is step 0 and the value there is 1; for any
  other node the value at \<open>j\<close> is above the threshold.
\<close>

theorem cascade_state_invariant:
  "(initial_risks \<noteq> [] \<longrightarrow>
      (\<exists>cp. analyze_risk_cascades G initial_risks threshold max_steps = Inr cp
          \<and> systemic_analyze_risk_cascades G initial_risks threshold max_steps = Inr cp))
   \<and> (\<forall>cp. analyze_risk_cascades G initial_risks threshold max_steps = Inr cp
         \<or> systemic_analyze_risk_cascades G initial_risks threshold max_steps = Inr cp \<longrightarrow>
      set initial_risks \<subseteq> fst ` set cp
      \<and> (\<forall>n\<in>set initial_risks. \<exists>xs. map_of cp n = Some xs \<and> xs \<noteq> [] \<and> xs ! 0 = 1)
      \<and> (\<forall>e\<in>set cp.
            length (snd e) = Suc (steps_simulated G initial_risks threshold max_steps))
      \<and> (\<forall>e\<in>set cp. \<exists>j<length (snd e).
           (\<forall>i<j. snd e ! i = 0)
           \<and> (\<forall>i. j \<le> i \<and> i < length (snd e) \<longrightarrow> snd e ! i = snd e ! j)
           \<and> (fst e \<notin> set initial_risks \<longrightarrow> threshold < snd e ! j)
           \<and> (fst e \<in> set initial_risks \<longrightarrow> j = 0 \<and> snd e ! 0 = 1)))"
proof (intro conjI allI impI)
  assume "initial_risks \<noteq> []"
  from analyze_risk_cascades_ok [OF this, of G threshold max_steps]
  obtain cp where "analyze_risk_cascades G initial_risks threshold max_steps = Inr cp"
    by blast
  then show "\<exists>cp. analyze_risk_cascades G initial_risks threshold max_steps = Inr cp
          \<and> systemic_analyze_risk_cascades G initial_risks threshold max_steps = Inr cp"
    by (simp add: systemic_cascades_eq)
next
  fix cp
  assume "analyze_risk_cascades G initial_risks threshold max_steps = Inr cp
         \<or> systemic_analyze_risk_cascades G initial_risks threshold max_steps = Inr cp"
  then have r: "analyze_risk_cascades G initial_risks threshold max_steps = Inr cp"
    by (simp add: systemic_cascades_eq)
  define L where "L = steps_simulated G initial_risks threshold max_steps"
  have keys: "set initial_risks \<subseteq> fst ` set cp"
    and ok: "list_all (entry_ok (set initial_risks) threshold (Suc L)) cp"
    using cascade_result_ok [OF r] unfolding L_def by simp_all
  show "set initial_risks \<subseteq> fst ` set cp"
    by (rule keys)
  show "\<forall>n\<in>set initial_risks. \<exists>xs. map_of cp n = Some xs \<and> xs \<noteq> [] \<and> xs ! 0 = 1"
    using seed_lookup [OF keys ok] by blast
  show "\<forall>e\<in>set cp. length (snd e) = Suc L"
    using ok by (simp add: list_all_iff entry_ok_def)
  show "\<forall>e\<in>set cp. \<exists>j<length (snd e).
           (\<forall>i<j. snd e ! i = 0)
           \<and> (\<forall>i. j \<le> i \<and> i < length (snd e) \<longrightarrow> snd e ! i = snd e ! j)
           \<and> (fst e \<notin> set initial_risks \<longrightarrow> threshold < snd e ! j)
           \<and> (fst e \<in> set initial_risks \<longrightarrow> j = 0 \<and> snd e ! 0 = 1)"
  proof
    fix e
    assume "e \<in> set cp"
    then have "entry_ok (set initial_risks) threshold (Suc L) e"
      using ok by (simp add: list_all_iff)
    then show "\<exists>j<length (snd e).
           (\<forall>i<j. snd e ! i = 0)
           \<and> (\<forall>i. j \<le> i \<and> i < length (snd e) \<longrightarrow> snd e ! i = snd e ! j)
           \<and> (fst e \<notin> set initial_risks \<longrightarrow> threshold < snd e ! j)
           \<and> (fst e \<in> set initial_risks \<longrightarrow> j = 0 \<and> snd e ! 0 = 1)"
      by (rule entry_ok_indexwise) simp
  qed
qed

theorem cascade_state_invariant_witness:
  "[1] \<noteq> ([] :: int list)
   \<and> analyze_risk_cascades chain_network [1] (1/2) 10
       = Inr [(1, [1, 1, 1]), (2, [9/10, 9/10, 9/10]), (3, [0, 81/100, 81/100])]
   \<and> systemic_analyze_risk_cascades chain_network [1] (1/2) 10
       = Inr [(1, [1, 1, 1]), (2, [9/10, 9/10, 9/10]), (3, [0, 81/100, 81/100])]
   \<and> (\<exists>xs. map_of [(1, [1, 1, 1]), (2, [9/10, 9/10, 9/10]), (3, [0, 81/100, 81/100 :: real])]
               (1::int) = Some xs \<and> xs \<noteq> [] \<and> xs ! 0 = 1)
   \<and> (\<exists>j<length [0, 81/100, 81/100 :: real].
         (\<forall>i<j. [0, 81/100, 81/100] ! i = (0::real))
         \<and> (\<forall>i. j \<le> i \<and> i < length [0, 81/100, 81/100 :: real]
                \<longrightarrow> [0, 81/100, 81/100 :: real] ! i = [0, 81/100, 81/100] ! j)
         \<and> 1/2 < [0, 81/100, 81/100 :: real] ! j)"
proof -
  let ?cp = "[(1, [1, 1, 1]), (2, [9/10, 9/10, 9/10]), (3, [0, 81/100, 81/100])]
             :: real progression"
  have ne: "[1] \<noteq> ([] :: int list)" by simp
  have r: "analyze_risk_cascades chain_network [1] (1/2) 10 = Inr ?cp"
    by (rule chain_cascade)
  note inst = cascade_state_invariant [of "[1]" chain_network "1/2" 10]
  have "\<exists>cp. analyze_risk_cascades chain_network [1] (1/2) 10 = Inr cp
          \<and> systemic_analyze_risk_cascades chain_network [1] (1/2) 10 = Inr cp"
    by (rule mp [OF conjunct1 [OF inst] ne])
  then have s: "systemic_analyze_risk_cascades chain_network [1] (1/2) 10 = Inr ?cp"
    unfolding r by simp
  have "analyze_risk_cascades chain_network [1] (1/2) 10 = Inr ?cp
        \<or> systemic_analyze_risk_cascades chain_network [1] (1/2) 10 = Inr ?cp"
    by (rule disjI1) (rule r)
  then have all: "set [1] \<subseteq> fst ` set ?cp
      \<and> (\<forall>n\<in>set [1]. \<exists>xs. map_of ?cp n = Some xs \<and> xs \<noteq> [] \<and> xs ! 0 = 1)
      \<and> (\<forall>e\<in>set ?cp.
            length (snd e) = Suc (steps_simulated chain_network [1] (1/2) 10))
      \<and> (\<forall>e\<in>set ?cp. \<exists>j<length (snd e).
           (\<forall>i<j. snd e ! i = 0)
           \<and> (\<forall>i. j \<le> i \<and> i < length (snd e) \<longrightarrow> snd e ! i = snd e ! j)
           \<and> (fst e \<notin> set [1] \<longrightarrow> 1/2 < snd e ! j)
           \<and> (fst e \<in> set [1] \<longrightarrow> j = 0 \<and> snd e ! 0 = 1))"
    by (rule mp [OF spec [OF conjunct2 [OF inst]]])
  have seeds: "\<forall>n\<in>set [1]. \<exists>xs. map_of ?cp n = Some xs \<and> xs \<noteq> [] \<and> xs ! 0 = 1"
    by (rule conjunct1 [OF conjunct2 [OF all]])
  have "(1::int) \<in> set [1]"
    by simp
  then have seed: "\<exists>xs. map_of ?cp (1::int) = Some xs \<and> xs \<noteq> [] \<and> xs ! 0 = 1"
    by (rule bspec [OF seeds])
  have inv: "\<forall>e\<in>set ?cp. \<exists>j<length (snd e).
           (\<forall>i<j. snd e ! i = 0)
           \<and> (\<forall>i. j \<le> i \<and> i < length (snd e) \<longrightarrow> snd e ! i = snd e ! j)
           \<and> (fst e \<notin> set [1] \<longrightarrow> 1/2 < snd e ! j)
           \<and> (fst e \<in> set [1] \<longrightarrow> j = 0 \<and> snd e ! 0 = 1)"
    by (rule conjunct2 [OF conjunct2 [OF conjunct2 [OF all]]])
  have late: "\<exists>j<length [0, 81/100, 81/100 :: real].
         (\<forall>i<j. [0, 81/100, 81/100] ! i = (0::real))
         \<and> (\<forall>i. j \<le> i \<and> i < length [0, 81/100, 81/100 :: real]
                \<longrightarrow> [0, 81/100, 81/100 :: real] ! i = [0, 81/100, 81/100] ! j)
         \<and> 1/2 < [0, 81/100, 81/100 :: real] ! j"
    using bspec [OF inv, of "(3, [0, 81/100, 81/100])"] by simp
  show ?thesis
    using ne r s seed late by (intro conjI)
qed

section \<open>Properties of the feedback-loop finder and of the duplicated routines\<close>

lemma cycle_edges:
  assumes "is_cycle_of G c" and "i < length c"
  shows "has_edge G (c ! i) (c ! (Suc i mod length c))"
proof -
  have all: "list_all (\<lambda>p. has_edge G (fst p) (snd p)) (zip c (rotate1 c))"
    using assms(1) by (simp add: is_cycle_of_def)
  have i: "i < length (zip c (rotate1 c))"
    using assms(2) by simp
  then have "has_edge G (fst (zip c (rotate1 c) ! i)) (snd (zip c (rotate1 c) ! i))"
    using all by (simp add: list_all_length)
  moreover have "zip c (rotate1 c) ! i = (c ! i, rotate1 c ! i)"
    using assms(2) by simp
  moreover have "rotate1 c ! i = c ! (Suc i mod length c)"
    using assms(2) by (rule nth_rotate1)
  ultimately show ?thesis by simp
qed

text \<open>
  C9. \<open>identify_risk_feedback_loops\<close> returns only lists that the library's enumeration of
  simple cycles yields and that have more than two nodes. Hence, given what the library
  documents of every cycle it yields (\<open>is_cycle_of\<close>), every returned list has more than
  two nodes, repeats no node, and each of its nodes is joined by an edge of the graph to
  the next one, the last node to the first.
\<close>

theorem feedback_loops_are_long_cycles:
  "(\<forall>loop\<in>set (identify_risk_feedback_loops simple_cycles G).
       2 < length loop \<and> loop \<in> set (simple_cycles G))
   \<and> ((\<forall>c\<in>set (simple_cycles G). is_cycle_of G c) \<longrightarrow>
        (\<forall>loop\<in>set (identify_risk_feedback_loops simple_cycles G).
            distinct loop
            \<and> (\<forall>i<length loop. has_edge G (loop ! i) (loop ! (Suc i mod length loop)))))"
proof (intro conjI impI ballI)
  fix loop
  assume "loop \<in> set (identify_risk_feedback_loops simple_cycles G)"
  then show "2 < length loop" and "loop \<in> set (simple_cycles G)"
    by (simp_all add: identify_risk_feedback_loops_def)
next
  fix loop
  assume lib: "\<forall>c\<in>set (simple_cycles G). is_cycle_of G c"
    and "loop \<in> set (identify_risk_feedback_loops simple_cycles G)"
  then have "loop \<in> set (simple_cycles G)"
    by (simp add: identify_risk_feedback_loops_def)
  then have c: "is_cycle_of G loop"
    using lib by blast
  then show "distinct loop"
    by (simp add: is_cycle_of_def)
  show "\<forall>i<length loop. has_edge G (loop ! i) (loop ! (Suc i mod length loop))"
    using cycle_edges [OF c] by blast
qed

lemma looped_network_eq:
  "looped_network =
     [(1, \<lparr>attrs = Some (sample_risk 1),
           adj = [(2, \<lparr>weight = 7/10, edge_type = ''Strong''\<rparr>),
                  (3, \<lparr>weight = 4/10, edge_type = ''Moderate''\<rparr>)]\<rparr>),
      (2, \<lparr>attrs = Some (sample_risk 2),
           adj = [(1, \<lparr>weight = 7/10, edge_type = ''Strong''\<rparr>),
                  (3, \<lparr>weight = 6/10, edge_type = ''Moderate''\<rparr>)]\<rparr>),
      (3, \<lparr>attrs = Some (sample_risk 3),
           adj = [(2, \<lparr>weight = 6/10, edge_type = ''Moderate''\<rparr>),
                  (1, \<lparr>weight = 4/10, edge_type = ''Moderate''\<rparr>)]\<rparr>),
      (5, \<lparr>attrs = Some (sample_risk 5),
           adj = [(5, \<lparr>weight = 1/10, edge_type = ''Weak''\<rparr>)]\<rparr>)]"
  by (simp add: looped_network_def build_risk_network_def add_interaction_def add_node_def add_edge_def
      ensure_node_def set_adj_def sample_risk_def sample_interaction_def
      determine_interaction_type_def)

theorem feedback_loops_are_long_cycles_witness:
  "list_all (is_cycle_of looped_network) (looped_network_cycles looped_network)
   \<and> identify_risk_feedback_loops looped_network_cycles looped_network = [[1, 2, 3]]
   \<and> has_edge looped_network 3 1"
proof -
  have lib: "\<forall>c\<in>set (looped_network_cycles looped_network). is_cycle_of looped_network c"
    unfolding looped_network_eq
    by (simp add: looped_network_cycles_def is_cycle_of_def has_edge_def adjacency_def
        image_iff)
  have r: "identify_risk_feedback_loops looped_network_cycles looped_network = [[1, 2, 3]]"
    by (simp add: identify_risk_feedback_loops_def looped_network_cycles_def)
  have "\<forall>loop\<in>set (identify_risk_feedback_loops looped_network_cycles looped_network).
            distinct loop
            \<and> (\<forall>i<length loop. has_edge looped_network (loop ! i) (loop ! (Suc i mod length loop)))"
    using feedback_loops_are_long_cycles [of looped_network_cycles looped_network] lib
    by blast
  then have all: "\<forall>i<length [1, 2, 3 :: int].
       has_edge looped_network ([1, 2, 3] ! i) ([1, 2, 3] ! (Suc i mod length [1, 2, 3 :: int]))"
    unfolding r by simp
  have "Suc (Suc 0) < length [1, 2, 3 :: int]"
    by simp
  with all have "has_edge looped_network ([1, 2, 3] ! Suc (Suc 0))
      ([1, 2, 3] ! (Suc (Suc (Suc 0)) mod length [1, 2, 3 :: int]))"
    by blast
  then have "has_edge looped_network 3 1"
    by simp
  then show ?thesis
    using lib r by (simp add: list_all_iff)
qed


text \<open>
  C10. The routines that the two modules duplicate agree: for every graph, seed list,
  threshold and step budget the two \<open>analyze_risk_cascades\<close> return the same result (the
  same error or the same mapping), and for every graph (and every behaviour of the
  library's cycle enumeration) the two \<open>identify_risk_feedback_loops\<close> return the same
  list.
\<close>

theorem duplicated_routines_agree:
  "systemic_analyze_risk_cascades G initial_risks threshold max_steps
     = analyze_risk_cascades G initial_risks threshold max_steps
   \<and> systemic_identify_risk_feedback_loops simple_cycles G
     = identify_risk_feedback_loops simple_cycles G"
  by (simp add: systemic_cascades_eq systemic_identify_risk_feedback_loops_def
      identify_risk_feedback_loops_def)

section \<open>Properties of the resilience metrics\<close>

lemma disconnected_network_eq:
  "disconnected_network =
     [(1, \<lparr>attrs = Some (sample_risk 1), adj = [(2, \<lparr>weight = 5/10, edge_type = ''Moderate''\<rparr>)]\<rparr>),
      (2, \<lparr>attrs = Some (sample_risk 2), adj = [(1, \<lparr>weight = 5/10, edge_type = ''Moderate''\<rparr>)]\<rparr>),
      (3, \<lparr>attrs = Some (sample_risk 3), adj = [(4, \<lparr>weight = 5/10, edge_type = ''Moderate''\<rparr>)]\<rparr>),
      (4, \<lparr>attrs = Some (sample_risk 4), adj = [(3, \<lparr>weight = 5/10, edge_type = ''Moderate''\<rparr>)]\<rparr>)]"
  by (simp add: disconnected_network_def build_risk_network_def add_interaction_def add_node_def add_edge_def
      ensure_node_def set_adj_def sample_risk_def sample_interaction_def
      determine_interaction_type_def)

lemma disconnected_network_not_connected:
  "1 < length disconnected_network \<and> \<not> is_connected disconnected_network"
  unfolding disconnected_network_eq
  by (simp add: is_connected_def adjacency_def eval_nat_numeral)

text \<open>
  C4. On a graph with more than one node that is not connected, the library's
  \<^verbatim>\<open>average_shortest_path_length\<close> raises \<^verbatim>\<open>NetworkXError\<close>; neither routine catches
  it, so both raise and return no metric at all: the path length is not reported as
  infinite, and the other three metrics are not returned. (The test
  \<^verbatim>\<open>test_network_analysis_edge_cases\<close> expects an infinite value in the returned
  dictionary.)
\<close>

theorem resilience_raises_on_disconnected:
  assumes "1 < length G" and "\<not> is_connected G"
  shows "nx_average_shortest_path_length path_length G = Inl NetworkXError
         \<and> (\<exists>e. analyze_network_resilience nx_average_clustering path_length nx_density
                   nx_degree_assortativity_coefficient G = Inl e)
         \<and> (\<exists>e. assess_network_resilience nx_average_clustering path_length nx_density
                   nx_degree_assortativity_coefficient G = Inl e)"
proof -
  have l: "nx_average_shortest_path_length path_length G = Inl NetworkXError"
    using assms by (auto simp: nx_average_shortest_path_length_def)
  then show ?thesis
    by (simp add: analyze_network_resilience_def assess_network_resilience_def
        split: sum.splits)
qed

theorem resilience_raises_on_disconnected_witness:
  "1 < length disconnected_network \<and> \<not> is_connected disconnected_network
   \<and> analyze_network_resilience (\<lambda>G. Inr 0) (\<lambda>G. 0) (\<lambda>G. Inr (1/3)) (\<lambda>G. Inr 1)
        disconnected_network = (Inl NetworkXError :: error + real resilience_metrics)
   \<and> assess_network_resilience (\<lambda>G. Inr 0) (\<lambda>G. 0) (\<lambda>G. Inr (1/3)) (\<lambda>G. Inr 1)
        disconnected_network = (Inl NetworkXError :: error + real resilience_metrics)"
proof -
  have d: "1 < length disconnected_network" and n: "\<not> is_connected disconnected_network"
    using disconnected_network_not_connected by simp_all
  have "nx_average_shortest_path_length (\<lambda>G. 0 :: real) disconnected_network
        = Inl NetworkXError"
    using resilience_raises_on_disconnected [OF d n] by blast
  then show ?thesis
    using d n
    by (simp add: analyze_network_resilience_def assess_network_resilience_def)
qed

end
